theory Spec2Isabelle
  imports Complex_Main
begin

section \<open>The packaging script \<^verbatim>\<open>setup.py\<close>\<close>

text \<open>
  The script runs top to bottom once. What it reads from its surroundings is collected in
  a record: whether its imports succeed, the directory holding the script, what opening
  and reading a file does, what \<^verbatim>\<open>Path.home()\<close> does, the process environment and the
  packages \<^verbatim>\<open>find_packages()\<close> reports.
  Paths follow the POSIX flavour of \<^verbatim>\<open>os.path\<close> and \<^verbatim>\<open>pathlib\<close>.
\<close>

subsection \<open>Exceptions\<close>

datatype py_error =
    ModuleNotFoundError
  | FileNotFoundError
  | IsADirectoryError
  | PermissionError
  | UnicodeDecodeError
  | RuntimeError
  | KeyError string
  | ValueError
  | ImportError
  | OtherException string

subsection \<open>Strings and paths\<close>

text \<open>\<^verbatim>\<open>s.split(c)\<close>: the pieces between the separators, empty pieces included.\<close>

fun split_sep :: "char \<Rightarrow> string \<Rightarrow> string list" where
  "split_sep c [] = [[]]"
| "split_sep c (x # xs) =
     (if x = c then [] # split_sep c xs
      else (case split_sep c xs of
              [] \<Rightarrow> [[x]]
            | p # ps \<Rightarrow> (x # p) # ps))"

text \<open>\<^verbatim>\<open>c.join(ps)\<close>.\<close>

fun join_sep :: "char \<Rightarrow> string list \<Rightarrow> string" where
  "join_sep c [] = []"
| "join_sep c [p] = p"
| "join_sep c (p # q # ps) = p @ c # join_sep c (q # ps)"

text \<open>
  \<^verbatim>\<open>os.path.join(a, b)\<close> with two arguments: an absolute \<open>b\<close> replaces \<open>a\<close>; otherwise
  the two are joined by one separator unless \<open>a\<close> is empty or already ends in one.
\<close>

definition os_path_join :: "string \<Rightarrow> string \<Rightarrow> string" where
  "os_path_join a b =
     (if take 1 b = ''/'' then b
      else if a = [] \<or> last a = CHR ''/'' then a @ b
      else a @ ''/'' @ b)"

text \<open>
  \<^verbatim>\<open>Path(s).parts\<close>: the root, when the string has one (exactly two leading slashes are a
  root of their own), followed by the non-empty components other than a single dot.
\<close>

definition Path :: "string \<Rightarrow> string list" where
  "Path s =
     (if take 2 s = ''//'' \<and> take 3 s \<noteq> ''///'' then [''//'']
      else if take 1 s = ''/'' then [''/'']
      else [])
     @ filter (\<lambda>p. p \<noteq> [] \<and> p \<noteq> ''.'') (split_sep CHR ''/'' s)"

text \<open>A path is absolute when its first part is a root.\<close>

definition is_absolute :: "string list \<Rightarrow> bool" where
  "is_absolute p = (case p of [] \<Rightarrow> False | r # rest \<Rightarrow> r = ''/'' \<or> r = ''//'')"

text \<open>
  \<^verbatim>\<open>p.relative_to(other)\<close>: the parts of \<open>p\<close> after those of \<open>other\<close>; a \<open>ValueError\<close> when
  the parts of \<open>other\<close> do not start \<open>p\<close>. Against an \<open>other\<close> with no parts (the path
  \<^verbatim>\<open>.\<close>) a relative path is returned as it is and an absolute path is refused.
\<close>

definition is_relative_to :: "string list \<Rightarrow> string list \<Rightarrow> bool" where
  "is_relative_to p other =
     (if other = [] then \<not> is_absolute p else take (length other) p = other)"

definition relative_to :: "string list \<Rightarrow> string list \<Rightarrow> py_error + string list" where
  "relative_to p other =
     (if is_relative_to p other then Inr (drop (length other) p) else Inl ValueError)"

text \<open>\<^verbatim>\<open>str(p)\<close> of a path given by its parts; the empty path prints as a dot.\<close>

definition str_path :: "string list \<Rightarrow> string" where
  "str_path ps =
     (case ps of
        [] \<Rightarrow> ''.''
      | r # rest \<Rightarrow>
          if r = ''/'' \<or> r = ''//'' then r @ join_sep CHR ''/'' rest
          else join_sep CHR ''/'' ps)"

text \<open>\<^verbatim>\<open>n * s\<close> on a string: no copies when \<open>n\<close> is negative.\<close>

definition str_mul :: "int \<Rightarrow> string \<Rightarrow> string" where
  "str_mul n s = concat (replicate (nat n) s)"

definition backslash :: char where
  "backslash = CHR 0x5C"

subsection \<open>What the script reads and what it hands to \<^verbatim>\<open>setup()\<close>\<close>

text \<open>
  An opened text file is what \<^verbatim>\<open>fh.read()\<close> does on it: it returns the decoded text or
  raises (\<open>UnicodeDecodeError\<close> on bytes that are not text).
\<close>

datatype text_file = TextFile "py_error + string"

fun fh_read :: "text_file \<Rightarrow> py_error + string" where
  "fh_read (TextFile r) = r"

text \<open>
  \<open>import_error\<close> is the exception the imports of lines 1 to 7 raise, if any (setuptools
  may be missing); \<open>open_file\<close> is \<^verbatim>\<open>open(path, "r")\<close>, which raises or returns a file; \<open>home\<close> is
  \<^verbatim>\<open>Path.home()\<close>, which raises \<open>RuntimeError\<close> when no home directory can be determined and
  otherwise returns it (possibly a relative path such as \<^verbatim>\<open>.\<close>, taken from \<^verbatim>\<open>HOME\<close>).
\<close>

record os_env =
  import_error :: "py_error option"
  package_dir :: string
  open_file :: "string \<Rightarrow> py_error + text_file"
  home :: "py_error + string"
  environ :: "string \<rightharpoonup> string"
  found_packages :: "string list"

record extension =
  ext_name :: string
  ext_sources :: "string list"
  ext_include_dirs :: "string list"
  ext_language :: string
  ext_extra_link_args :: "string list"
  ext_extra_compile_args :: "string list"

record setup_args =
  name :: string
  version :: string
  description :: string
  long_description :: string
  long_description_content_type :: string
  url :: string
  author :: string
  author_email :: string
  license :: string
  cmdclass :: "(string \<times> string) list"
  setup_requires :: "string list"
  install_requires :: "string list"
  tests_require :: "string list"
  packages :: "string list"
  package_data :: "(string \<times> string list) list"
  zip_safe :: bool
  ext_modules :: "extension list"
  classifiers :: "string list"
  requires_python :: string

definition VERSION :: string where
  "VERSION = ''0.9.5''"

definition include_dirs :: "string \<Rightarrow> string list" where
  "include_dirs source_dir = [source_dir, os_path_join source_dir ''backend'']"

definition extensions :: "string \<Rightarrow> string list \<Rightarrow> extension list" where
  "extensions source_dir conda_prefix =
     [\<lparr> ext_name = ''waterz.evaluate'',
        ext_sources = [''waterz/evaluate.cpp'', ''waterz/frontend_evaluate.cpp''],
        ext_include_dirs = include_dirs source_dir,
        ext_language = ''c++'',
        ext_extra_link_args = [''-std=c++11''],
        ext_extra_compile_args =
          [''-std=c++11'', ''-w'',
           ''-I'' @ str_path conda_prefix @ backslash # ''Lib'' @ backslash # ''site-packages''
             @ backslash # ''numpy'' @ backslash # ''core'' @ backslash # ''include'',
           ''-I'' @ str_path conda_prefix @ backslash # ''Library'' @ backslash # ''include''] \<rparr>]"

definition setup_call :: "os_env \<Rightarrow> string \<Rightarrow> extension list \<Rightarrow> setup_args" where
  "setup_call env readme exts =
     \<lparr> name = ''waterz'',
       version = VERSION,
       description = ''Simple watershed and agglomeration for affinity graphs.'',
       long_description = readme,
       long_description_content_type = ''text/markdown'',
       url = ''https://github.com/funkey/waterz'',
       author = ''Jan Funke, Jingpeng Wu'',
       author_email = ''jfunke@iri.upc.edu'',
       license = ''MIT'',
       cmdclass = [(''build_ext'', ''build_ext'')],
       setup_requires = [''numpy''],
       install_requires = [''numpy'', ''cython''],
       tests_require = [''pytest''],
       packages = found_packages env,
       package_data =
         [('''', [''*.pyx'', ''*.hpp'', ''*.cpp'', ''*.h'', ''*.py'', ''backend/*.hpp'']),
          (''backend'', [''*.hpp''])],
       zip_safe = False,
       ext_modules = exts,
       classifiers =
         [''Programming Language :: Python :: 3'',
          ''Intended Audience :: Developers'',
          ''License :: OSI Approved :: MIT License'',
          ''Operating System :: OS Independent''],
       requires_python = ''>=3.6, <4'' \<rparr>"

text \<open>
  The module body, statement by statement. \<open>Inl\<close> is the exception that ends the script;
  \<open>Inr\<close> holds the keyword arguments with which the last statement calls \<^verbatim>\<open>setup()\<close>,
  so an \<open>Inl\<close> result means that \<^verbatim>\<open>setup()\<close> was never reached.
\<close>

definition source_dir :: "os_env \<Rightarrow> string" where
  "source_dir env = os_path_join (package_dir env) ''waterz''"

text \<open>
  Lines 14 and 15: \<^verbatim>\<open>README.md\<close> beside the script is opened, then read. Either step may
  raise.
\<close>

definition read_long_description :: "os_env \<Rightarrow> py_error + string" where
  "read_long_description env =
     (case open_file env (os_path_join (package_dir env) ''README.md'') of
        Inl e \<Rightarrow> Inl e
      | Inr fh \<Rightarrow> fh_read fh)"

text \<open>
  Lines 30 to 49, from the home directory \<open>h\<close> that \<^verbatim>\<open>Path.home()\<close> returned: line 31 places
  the source directory under it, line 32 looks \<^verbatim>\<open>CONDA_PREFIX\<close> up and places it under the
  home directory too.
\<close>

definition locate :: "os_env \<Rightarrow> string \<Rightarrow> py_error + extension list" where
  "locate env h =
     (case relative_to (Path (source_dir env)) (Path h) of
        Inl e \<Rightarrow> Inl e
      | Inr rel_source \<Rightarrow>
          let rel_home_dir = Path (str_mul (int (length rel_source) - 1) ''../'') in
          (case environ env ''CONDA_PREFIX'' of
             None \<Rightarrow> Inl (KeyError ''CONDA_PREFIX'')
           | Some prefix \<Rightarrow>
               (case relative_to (Path prefix) (Path h) of
                  Inl e \<Rightarrow> Inl e
                | Inr rel_prefix \<Rightarrow>
                    let conda_prefix = rel_home_dir @ rel_prefix in
                    Inr (extensions (source_dir env) conda_prefix))))"

text \<open>The whole script: the imports, the read of \<^verbatim>\<open>README.md\<close>, lines 30 to 49, the call.\<close>

definition setup_script :: "os_env \<Rightarrow> py_error + setup_args" where
  "setup_script env =
     (case import_error env of
        Some e \<Rightarrow> Inl e
      | None \<Rightarrow>
          (case read_long_description env of
             Inl e \<Rightarrow> Inl e
           | Inr readme \<Rightarrow>
               (case home env of
                  Inl e \<Rightarrow> Inl e
                | Inr h \<Rightarrow>
                    (case locate env h of
                       Inl e \<Rightarrow> Inl e
                     | Inr exts \<Rightarrow> Inr (setup_call env readme exts)))))"

subsection \<open>The command class \<^verbatim>\<open>build_ext\<close>\<close>

text \<open>
  The builder object carries its list of include directories; every other attribute is
  the record's extension part. The interpreter state around it is the builder together
  with the attributes of the module \<^verbatim>\<open>builtins\<close>. The inherited \<^verbatim>\<open>finalize_options\<close>
  belongs to setuptools and is a parameter, as is numpy: \<open>None\<close> when it cannot be
  imported, otherwise the directory \<^verbatim>\<open>numpy.get_include()\<close> returns. A call that raises
  returns the exception with the state it leaves behind.
\<close>

record builder =
  bld_include_dirs :: "string list"

record 'a world =
  self :: "'a builder_scheme"
  builtins :: "string \<rightharpoonup> bool"

definition finalize_options ::
  "('a world \<Rightarrow> (py_error \<times> 'a world) + 'a world) \<Rightarrow> string option \<Rightarrow> 'a world
     \<Rightarrow> (py_error \<times> 'a world) + 'a world" where
  "finalize_options base_finalize_options numpy w =
     (case base_finalize_options w of
        Inl ew \<Rightarrow> Inl ew
      | Inr w1 \<Rightarrow>
          let w2 = w1\<lparr>builtins := (builtins w1)(''__NUMPY_SETUP__'' \<mapsto> False)\<rparr> in
          (case numpy of
             None \<Rightarrow> Inl (ImportError, w2)
           | Some get_include \<Rightarrow>
               Inr (w2\<lparr>self := (self w2)\<lparr>bld_include_dirs :=
                                    bld_include_dirs (self w2) @ [get_include]\<rparr>\<rparr>)))"

subsection \<open>Concrete surroundings\<close>

text \<open>
  A checkout below the home directory inside an activated conda environment; the same
  with the conda prefix outside the home directory, and with no conda environment; a
  checkout outside the home directory with no conda environment; checkouts below the home
  directory with no conda environment whose \<^verbatim>\<open>README.md\<close> is missing, or is not text.
  For the builder: an inherited \<^verbatim>\<open>finalize_options\<close> that adds the interpreter's own
  include directory, and one that changes nothing.
\<close>

definition readme_at :: "string \<Rightarrow> string \<Rightarrow> py_error + text_file" where
  "readme_at path p =
     (if p = path then Inr (TextFile (Inr ''# waterz'')) else Inl FileNotFoundError)"

definition example_env :: os_env where
  "example_env =
     \<lparr> import_error = None,
       package_dir = ''/home/user/src/waterz'',
       open_file = readme_at ''/home/user/src/waterz/README.md'',
       home = Inr ''/home/user'',
       environ = [''CONDA_PREFIX'' \<mapsto> ''/home/user/miniconda3/envs/waterz''],
       found_packages = [''waterz''] \<rparr>"

definition opt_prefix_env :: os_env where
  "opt_prefix_env = example_env\<lparr>environ := [''CONDA_PREFIX'' \<mapsto> ''/opt/conda'']\<rparr>"

definition no_prefix_env :: os_env where
  "no_prefix_env = example_env\<lparr>environ := Map.empty\<rparr>"

definition outside_home_env :: os_env where
  "outside_home_env =
     \<lparr> import_error = None,
       package_dir = ''/opt/waterz'',
       open_file = readme_at ''/opt/waterz/README.md'',
       home = Inr ''/home/user'',
       environ = Map.empty,
       found_packages = [''waterz''] \<rparr>"

definition no_readme_env :: os_env where
  "no_readme_env = no_prefix_env\<lparr>open_file := (\<lambda>p. Inl FileNotFoundError)\<rparr>"

definition binary_readme_env :: os_env where
  "binary_readme_env =
     no_prefix_env\<lparr>open_file := (\<lambda>p. Inr (TextFile (Inl UnicodeDecodeError)))\<rparr>"

definition example_base :: "unit world \<Rightarrow> (py_error \<times> unit world) + unit world" where
  "example_base w =
     Inr (w\<lparr>self := (self w)\<lparr>bld_include_dirs :=
                          bld_include_dirs (self w) @ [''/usr/include/python3.8'']\<rparr>\<rparr>)"

definition idle_base :: "unit world \<Rightarrow> (py_error \<times> unit world) + unit world" where
  "idle_base w = Inr w"

definition example_world :: "unit world" where
  "example_world = \<lparr> self = \<lparr> bld_include_dirs = [''waterz''] \<rparr>, builtins = Map.empty \<rparr>"

section \<open>The agglomeration engine\<close>

text \<open>
  The package that \<^verbatim>\<open>setup.py\<close> builds wraps a C++ engine whose sources are not among the
  files at hand. What follows is a model of the engine written from its specification:
  the Union-Find, the Region Adjacency Graph, the Agglomerator and the Result Assembler.
\<close>

subsection \<open>Union-Find\<close>

text \<open>
  Modelled from the spec: the Union-Find of section 4.1, whose source is not among the files.
  One entry per id: its parent, its rank, and the voxel count of the set a root stands for.
\<close>

record union_find =
  parent :: "nat list"
  rank :: "nat list"
  size_of :: "nat list"

text \<open>
  Modelled from the spec: \<^verbatim>\<open>make(n)\<close> "creates n singleton sets" (section 4.1).
\<close>

definition uf_make :: "nat \<Rightarrow> union_find" where
  "uf_make n = \<lparr> parent = [0..<n], rank = replicate n 0, size_of = replicate n 1 \<rparr>"

text \<open>
  Modelled from the spec: \<^verbatim>\<open>find(x)\<close> "returns the current representative, applying path
  compression" (section 4.1), on the parent array: every id on the path from \<open>x\<close> is made to
  point at the root. An id outside the array, and a walk that never reaches a root, give
  \<open>None\<close>.
\<close>

partial_function (option) find_root :: "nat list \<Rightarrow> nat \<Rightarrow> (nat list \<times> nat) option" where
  "find_root p x =
     (if x < length p then
        (if p ! x = x then Some (p, x)
         else Option.bind (find_root p (p ! x)) (\<lambda>(p', r). Some (p'[x := r], r)))
      else None)"

declare find_root.simps [code]

text \<open>
  Modelled from the spec: \<^verbatim>\<open>find(x)\<close> on the whole structure (section 4.1).
\<close>

definition uf_find :: "union_find \<Rightarrow> nat \<Rightarrow> (union_find \<times> nat) option" where
  "uf_find u x = map_option (\<lambda>(p', r). (u\<lparr>parent := p'\<rparr>, r)) (find_root (parent u) x)"

text \<open>
  Modelled from the spec: the link step of \<^verbatim>\<open>union\<close> (section 4.1): root \<open>a\<close> is hung below root
  \<open>b\<close>, whose voxel count becomes the sum.
\<close>

definition link :: "union_find \<Rightarrow> nat \<Rightarrow> nat \<Rightarrow> union_find" where
  "link u a b =
     u\<lparr> parent := (parent u)[a := b],
        size_of := (size_of u)[b := size_of u ! a + size_of u ! b] \<rparr>"

text \<open>
  Modelled from the spec: \<^verbatim>\<open>union(x, y)\<close> "merges the sets containing x and y using
  union-by-rank/size, returns the new representative id" (section 4.1).
\<close>

definition uf_union :: "union_find \<Rightarrow> nat \<Rightarrow> nat \<Rightarrow> (union_find \<times> nat) option" where
  "uf_union u x y =
     Option.bind (uf_find u x) (\<lambda>(u1, rx).
     Option.bind (uf_find u1 y) (\<lambda>(u2, ry).
       if rx = ry then Some (u2, rx)
       else if rank u2 ! rx < rank u2 ! ry then Some (link u2 rx ry, ry)
       else if rank u2 ! ry < rank u2 ! rx then Some (link u2 ry rx, rx)
       else Some ((link u2 ry rx)\<lparr>rank := (rank u2)[rx := Suc (rank u2 ! rx)]\<rparr>, rx)))"

text \<open>
  Modelled from the spec: \<^verbatim>\<open>size(root)\<close> "returns voxel count of a set" (section 4.1).
\<close>

definition uf_size :: "union_find \<Rightarrow> nat \<Rightarrow> nat" where
  "uf_size u r = size_of u ! r"

subsection \<open>The Region Adjacency Graph and the Agglomerator\<close>

text \<open>
  Modelled from the spec: a RAG edge, an "unordered pair of region ids with an aggregated score"
  (section 3); the statistics the scoring policy keeps per edge are a type parameter.
\<close>

record 'st rag_edge =
  edge_u :: nat
  edge_v :: nat
  edge_stats :: 'st

text \<open>
  Modelled from the spec: a Merge Event, "(region A id, region B id, resulting region id, score,
  resulting size)" (section 3).
\<close>

record merge_event =
  region_a :: nat
  region_b :: nat
  region_result :: nat
  event_score :: real
  result_size :: nat

text \<open>
  Modelled from the spec: the option \<^verbatim>\<open>merge_direction\<close>, "whether agglomeration pops highest- or
  lowest-scoring edge first" (section 6).
\<close>

datatype merge_direction = HighestFirst | LowestFirst

text \<open>
  Modelled from the spec: the size constraint policies section 4.4 names: none, a bound on the
  size of the merged region, a bound on the ratio of the two sizes.
\<close>

datatype size_constraint = Unconstrained | MaxSize nat | MaxRatio nat

text \<open>
  Modelled from the spec: whether the size constraint lets regions of the two sizes merge
  (section 4.4).
\<close>

fun permits :: "size_constraint \<Rightarrow> nat \<Rightarrow> nat \<Rightarrow> bool" where
  "permits Unconstrained a b = True"
| "permits (MaxSize m) a b = (a + b \<le> m)"
| "permits (MaxRatio k) a b = (max a b \<le> k * min a b)"

text \<open>
  Modelled from the spec: the configuration of a run: the scoring policy as the capability
  interface of section 9 (the score of an edge's statistics, and \<^verbatim>\<open>combine\<close> of two edges'
  statistics), the merge direction and the size constraint.
\<close>

record 'st policy =
  score_of :: "'st \<Rightarrow> real"
  combine :: "'st \<Rightarrow> 'st \<Rightarrow> 'st"
  direction :: merge_direction
  constraint :: size_constraint

text \<open>
  Modelled from the spec: the Agglomerator's state, "current Union-Find, current RAG, ... list
  of remaining thresholds, merge sequence counter, merge history log" (section 4.4), together
  with the snapshots taken so far, each with its threshold.
\<close>

record 'st agg_state =
  uf :: union_find
  rag :: "'st rag_edge list"
  thresholds :: "real list"
  seq :: nat
  history :: "merge_event list"
  snapshots :: "(real \<times> nat list) list"

text \<open>
  Modelled from the spec: the tie-breaking key of an edge, the "ascending pair of region ids"
  (section 4.4).
\<close>

definition edge_key :: "'st rag_edge \<Rightarrow> nat \<times> nat" where
  "edge_key e = (min (edge_u e) (edge_v e), max (edge_u e) (edge_v e))"

text \<open>
  Modelled from the spec: the order of tie-breaking keys, first component first (section 4.4).
\<close>

definition key_le :: "nat \<times> nat \<Rightarrow> nat \<times> nat \<Rightarrow> bool" where
  "key_le a b = (fst a < fst b \<or> (fst a = fst b \<and> snd a \<le> snd b))"

text \<open>
  Modelled from the spec: the priority order of the RAG: by score in the merge direction, "edges
  with equal score are ordered by a fixed secondary key" (section 4.4).
\<close>

definition precedes :: "'st policy \<Rightarrow> 'st rag_edge \<Rightarrow> 'st rag_edge \<Rightarrow> bool" where
  "precedes pol e f =
     (let se = score_of pol (edge_stats e); sf = score_of pol (edge_stats f) in
      (case direction pol of HighestFirst \<Rightarrow> sf < se | LowestFirst \<Rightarrow> se < sf)
      \<or> (se = sf \<and> key_le (edge_key e) (edge_key f)))"

text \<open>
  Modelled from the spec: "the RAG edge with the extremal score" (section 4.4), \<open>None\<close> when no edge
  remains.
\<close>

fun extremal :: "'st policy \<Rightarrow> 'st rag_edge list \<Rightarrow> 'st rag_edge option" where
  "extremal pol [] = None"
| "extremal pol (e # es) =
     (case extremal pol es of
        None \<Rightarrow> Some e
      | Some f \<Rightarrow> if precedes pol e f then Some e else Some f)"

text \<open>
  Modelled from the spec: "the extremal score would exceed the threshold boundary" (section 4.4):
  above the threshold when the lowest score is merged first, below it when the highest is.
\<close>

definition exceeds :: "merge_direction \<Rightarrow> real \<Rightarrow> real \<Rightarrow> bool" where
  "exceeds d sc t = (case d of LowestFirst \<Rightarrow> t < sc | HighestFirst \<Rightarrow> sc < t)"

text \<open>
  Modelled from the spec: two edges join the same unordered pair of regions (section 3).
\<close>

definition same_pair :: "'st rag_edge \<Rightarrow> 'st rag_edge \<Rightarrow> bool" where
  "same_pair e f = (edge_key e = edge_key f)"

text \<open>
  Modelled from the spec: an edge is added to a RAG; if the pair already has an edge the two are
  "coalesced into a single edge whose aggregate statistic is the policy-defined combination
  of the two inputs" (section 4.3).
\<close>

fun insert_edge :: "'st policy \<Rightarrow> 'st rag_edge \<Rightarrow> 'st rag_edge list \<Rightarrow> 'st rag_edge list" where
  "insert_edge pol e [] = [e]"
| "insert_edge pol e (f # fs) =
     (if same_pair e f
      then f\<lparr>edge_stats := combine pol (edge_stats f) (edge_stats e)\<rparr> # fs
      else f # insert_edge pol e fs)"

text \<open>
  Modelled from the spec: "parallel edges are coalesced on region merge" (section 3).
\<close>

definition coalesce :: "'st policy \<Rightarrow> 'st rag_edge list \<Rightarrow> 'st rag_edge list" where
  "coalesce pol es = foldl (\<lambda>acc e. insert_edge pol e acc) [] es"

text \<open>
  Modelled from the spec: after regions \<open>a\<close> and \<open>b\<close> merged into \<open>r\<close>, an edge's end points
  name the surviving region (section 4.4).
\<close>

definition relabel :: "nat \<Rightarrow> nat \<Rightarrow> nat \<Rightarrow> 'st rag_edge \<Rightarrow> 'st rag_edge" where
  "relabel a b r e =
     e\<lparr> edge_u := (if edge_u e = a \<or> edge_u e = b then r else edge_u e),
        edge_v := (if edge_v e = a \<or> edge_v e = b then r else edge_v e) \<rparr>"

text \<open>
  Modelled from the spec: the RAG after a merge: edges relabelled, the edges inside the merged
  region dropped, parallel edges coalesced (sections 4.3 and 4.4).
\<close>

definition merge_edges ::
  "'st policy \<Rightarrow> nat \<Rightarrow> nat \<Rightarrow> nat \<Rightarrow> 'st rag_edge list \<Rightarrow> 'st rag_edge list" where
  "merge_edges pol a b r es =
     coalesce pol (filter (\<lambda>e. edge_u e \<noteq> edge_v e) (map (relabel a b r) es))"

text \<open>
  Modelled from the spec: "label every voxel via Union-Find find" (section 4.4): the fragment of
  each voxel is resolved in turn, each \<^verbatim>\<open>find\<close> compressing paths.
\<close>

fun label_voxels :: "union_find \<Rightarrow> nat list \<Rightarrow> (union_find \<times> nat list) option" where
  "label_voxels u [] = Some (u, [])"
| "label_voxels u (f # fs) =
     Option.bind (uf_find u f) (\<lambda>(u1, r).
     Option.bind (label_voxels u1 fs) (\<lambda>(u2, ls). Some (u2, r # ls)))"

text \<open>
  Modelled from the spec: "a full segmentation snapshot is taken ... and associated with that
  threshold" (section 4.4); the threshold is consumed.
\<close>

definition take_snapshot ::
  "nat list \<Rightarrow> real \<Rightarrow> real list \<Rightarrow> 'st agg_state \<Rightarrow> 'st agg_state option" where
  "take_snapshot fragments t ts s =
     Option.bind (label_voxels (uf s) fragments) (\<lambda>(u', labels).
       Some (s\<lparr> uf := u', thresholds := ts, snapshots := snapshots s @ [(t, labels)] \<rparr>))"

text \<open>
  Modelled from the spec: one merge step (section 4.4) on the popped edge: an edge that is stale
  or fails the size constraint "is skipped (removed without merging)"; otherwise the two
  regions are united, the RAG is updated, a Merge Event is appended and the sequence counter
  incremented.
\<close>

definition merge_step :: "'st policy \<Rightarrow> 'st rag_edge \<Rightarrow> 'st agg_state \<Rightarrow> 'st agg_state option" where
  "merge_step pol e s =
     Option.bind (uf_find (uf s) (edge_u e)) (\<lambda>(u1, ra).
     Option.bind (uf_find u1 (edge_v e)) (\<lambda>(u2, rb).
       let rest = remove1 e (rag s) in
       if ra = rb \<or> \<not> permits (constraint pol) (uf_size u2 ra) (uf_size u2 rb)
       then Some (s\<lparr> uf := u2, rag := rest \<rparr>)
       else Option.bind (uf_union u2 ra rb) (\<lambda>(u3, r).
         Some (s\<lparr> uf := u3,
                  rag := merge_edges pol ra rb r rest,
                  seq := Suc (seq s),
                  history := history s @
                    [\<lparr> region_a = ra, region_b = rb, region_result = r,
                       event_score = score_of pol (edge_stats e),
                       result_size = uf_size u3 r \<rparr>] \<rparr>))))"

text \<open>
  Modelled from the spec: "the next pending threshold" of section 4.4, out of the
  ascending list of remaining thresholds. A threshold's segmentation is the state after
  "the last merge whose score is \<le> (or \<ge>, depending on policy direction) the threshold"
  (section 3), so the threshold that merging crosses first is the smallest when the lowest
  score is merged first and the largest when the highest is. The result is that threshold
  and the thresholds that remain.
\<close>

definition next_threshold :: "merge_direction \<Rightarrow> real list \<Rightarrow> (real \<times> real list) option" where
  "next_threshold d ts =
     (if ts = [] then None
      else (case d of
              LowestFirst \<Rightarrow> Some (hd ts, tl ts)
            | HighestFirst \<Rightarrow> Some (last ts, butlast ts)))"

text \<open>
  Modelled from the spec: one transition of the Agglomerator (section 4.4). With no threshold left
  the state is terminal. Otherwise the extremal edge is compared with the next pending
  threshold: a snapshot is taken if it exceeds the threshold or no edge remains ("thresholds
  beyond the highest reachable score receive the final segmentation"), and the edge is
  merged or skipped if not.
\<close>

definition agg_step :: "'st policy \<Rightarrow> nat list \<Rightarrow> 'st agg_state \<Rightarrow> 'st agg_state option" where
  "agg_step pol fragments s =
     (case next_threshold (direction pol) (thresholds s) of
        None \<Rightarrow> Some s
      | Some (t, ts) \<Rightarrow>
          (case extremal pol (rag s) of
             None \<Rightarrow> take_snapshot fragments t ts s
           | Some e \<Rightarrow>
               if exceeds (direction pol) (score_of pol (edge_stats e)) t
               then take_snapshot fragments t ts s
               else merge_step pol e s))"

text \<open>
  Modelled from the spec: the state after \<open>k\<close> transitions of the Agglomerator (section 4.4).
\<close>

fun agg_steps :: "'st policy \<Rightarrow> nat list \<Rightarrow> nat \<Rightarrow> 'st agg_state \<Rightarrow> 'st agg_state option" where
  "agg_steps pol fragments 0 s = Some s"
| "agg_steps pol fragments (Suc k) s =
     Option.bind (agg_step pol fragments s) (agg_steps pol fragments k)"

text \<open>
  The measure of the merge loop: thresholds and edges still to process.
\<close>

definition agg_measure :: "'st agg_state \<Rightarrow> nat" where
  "agg_measure s = length (thresholds s) + length (rag s)"

text \<open>
  Modelled from the spec: the merge loop, run "to terminal state" (section 5): transitions are
  taken until all thresholds are consumed.
\<close>

function agg_loop :: "'st policy \<Rightarrow> nat list \<Rightarrow> 'st agg_state \<Rightarrow> 'st agg_state option" where
  "agg_loop pol fragments s =
     (if thresholds s = [] then Some s
      else (case agg_step pol fragments s of
              None \<Rightarrow> None
            | Some s' \<Rightarrow> agg_loop pol fragments s'))"
  by pat_completeness auto

termination
proof (relation "measure (\<lambda>(pol, fragments, s). agg_measure s)")
  show "wf (measure (\<lambda>(pol :: 'a policy, fragments :: nat list, s). agg_measure s))"
    by simp
next
  fix pol :: "'a policy" and fragments :: "nat list" and s s' :: "'a agg_state"
  assume more: "thresholds s \<noteq> []" and step: "agg_step pol fragments s = Some s'"
  have ins: "length (insert_edge pol e fs) \<le> Suc (length fs)" for e fs
    by (induction fs) auto
  have acc: "length (foldl (\<lambda>acc e. insert_edge pol e acc) acc es) \<le> length acc + length es"
    for acc es
  proof (induction es arbitrary: acc)
    case Nil
    then show ?case by simp
  next
    case (Cons e es)
    have "length (foldl (\<lambda>acc e. insert_edge pol e acc) (insert_edge pol e acc) es)
        \<le> length (insert_edge pol e acc) + length es"
      by (rule Cons.IH)
    also have "\<dots> \<le> Suc (length acc) + length es"
      using ins [of e acc] by simp
    finally show ?case by simp
  qed
  have merged: "length (merge_edges pol a b r es) \<le> length es" for a b r es
  proof -
    let ?kept = "filter (\<lambda>e. edge_u e \<noteq> edge_v e) (map (relabel a b r) es)"
    have "length (merge_edges pol a b r es) \<le> length ?kept"
      using acc [of "[]" ?kept] by (simp add: merge_edges_def coalesce_def)
    also have "\<dots> \<le> length (map (relabel a b r) es)"
      by (rule length_filter_le)
    finally show ?thesis by simp
  qed
  have mem: "e \<in> set es" if "extremal pol es = Some e" for e es
    using that by (induction es arbitrary: e) (auto split: option.splits if_splits)
  from more obtain t ts where th: "next_threshold (direction pol) (thresholds s) = Some (t, ts)"
    and shorter: "length ts < length (thresholds s)"
    by (cases "direction pol") (auto simp: next_threshold_def)
  have snapshot: "agg_measure s' < agg_measure s"
    if "take_snapshot fragments t ts s = Some s'"
    using that shorter
    by (auto simp: take_snapshot_def agg_measure_def split: Option.bind_splits)
  have merge: "agg_measure s' < agg_measure s"
    if m: "merge_step pol e s = Some s'" and e: "e \<in> set (rag s)" for e
  proof -
    from e have "rag s \<noteq> []" by auto
    with e have less: "length (remove1 e (rag s)) < length (rag s)"
      by (simp add: length_remove1)
    from m obtain u2 ra rb where
      rest: "(if ra = rb \<or> \<not> permits (constraint pol) (uf_size u2 ra) (uf_size u2 rb)
              then Some (s\<lparr> uf := u2, rag := remove1 e (rag s) \<rparr>)
              else Option.bind (uf_union u2 ra rb) (\<lambda>(u3, r).
                Some (s\<lparr> uf := u3,
                    rag := merge_edges pol ra rb r (remove1 e (rag s)),
                    seq := Suc (seq s),
                    history := history s @
                      [\<lparr> region_a = ra, region_b = rb, region_result = r,
                         event_score = score_of pol (edge_stats e),
                         result_size = uf_size u3 r \<rparr>] \<rparr>))) = Some s'"
      by (auto simp: merge_step_def Let_def split: Option.bind_splits)
    show ?thesis
    proof (cases "ra = rb \<or> \<not> permits (constraint pol) (uf_size u2 ra) (uf_size u2 rb)")
      case True
      with rest have "s' = s\<lparr> uf := u2, rag := remove1 e (rag s) \<rparr>" by auto
      with less show ?thesis by (simp add: agg_measure_def)
    next
      case False
      with rest obtain u3 r where
        "s' = s\<lparr> uf := u3,
                    rag := merge_edges pol ra rb r (remove1 e (rag s)),
                    seq := Suc (seq s),
                    history := history s @
                      [\<lparr> region_a = ra, region_b = rb, region_result = r,
                         event_score = score_of pol (edge_stats e),
                         result_size = uf_size u3 r \<rparr>] \<rparr>"
        by (auto split: Option.bind_splits)
      with less merged [of ra rb r "remove1 e (rag s)"]
      show ?thesis by (simp add: agg_measure_def)
    qed
  qed
  have "agg_measure s' < agg_measure s"
  proof (cases "extremal pol (rag s)")
    case None
    with step th show ?thesis by (intro snapshot) (simp add: agg_step_def)
  next
    case (Some e)
    show ?thesis
    proof (cases "exceeds (direction pol) (score_of pol (edge_stats e)) t")
      case True
      with step th Some show ?thesis by (intro snapshot) (simp add: agg_step_def)
    next
      case False
      with step th Some have "merge_step pol e s = Some s'" by (simp add: agg_step_def)
      then show ?thesis using mem [OF Some] by (rule merge)
    qed
  qed
  then show "((pol, fragments, s'), (pol, fragments, s))
      \<in> measure (\<lambda>(pol, fragments, s). agg_measure s)"
    by simp
qed

subsection \<open>Result assembly and the entry point\<close>



text \<open>
  Modelled from the spec: "a Union-Find seeded from the fragmentation" (section 2): one singleton
  set per fragment, with the fragment's voxel count.
\<close>

definition seed :: "nat list \<Rightarrow> union_find" where
  "seed fragment_sizes = (uf_make (length fragment_sizes))\<lparr>size_of := fragment_sizes\<rparr>"

text \<open>
  Modelled from the spec: the Agglomerator's state before the first transition (section 4.4),
  with the "sorted/ascending list of remaining thresholds": thresholds that were not
  supplied in ascending order are sorted, "the engine sorts them internally" (section 7).
\<close>

definition initial_state :: "nat list \<Rightarrow> 'st rag_edge list \<Rightarrow> real list \<Rightarrow> 'st agg_state" where
  "initial_state fragment_sizes edges ts =
     \<lparr> uf = seed fragment_sizes, rag = edges, thresholds = sort ts, seq = 0,
       history = [], snapshots = [] \<rparr>"



subsection \<open>Notions the properties are stated with\<close>

text \<open>
  Following parent links from \<open>x\<close> ends at the root \<open>r\<close>.
\<close>

inductive root_of :: "nat list \<Rightarrow> nat \<Rightarrow> nat \<Rightarrow> bool" for p :: "nat list" where
  root: "x < length p \<Longrightarrow> p ! x = x \<Longrightarrow> root_of p x x"
| step: "x < length p \<Longrightarrow> p ! x \<noteq> x \<Longrightarrow> root_of p (p ! x) r \<Longrightarrow> root_of p x r"

text \<open>
  The parent array is a forest: every parent is an id of the array, and ranks grow
  strictly along parent links.
\<close>

definition forest :: "nat list \<Rightarrow> nat list \<Rightarrow> bool" where
  "forest p rk = (length rk = length p \<and>
     (\<forall>i<length p. p ! i < length p \<and> (p ! i \<noteq> i \<longrightarrow> rk ! i < rk ! (p ! i))))"

text \<open>
  The invariant of the Union-Find.
\<close>

definition uf_inv :: "union_find \<Rightarrow> bool" where
  "uf_inv u = (forest (parent u) (rank u) \<and> length (size_of u) = length (parent u))"

text \<open>
  Two ids have the same root.
\<close>

definition joined :: "nat list \<Rightarrow> nat \<Rightarrow> nat \<Rightarrow> bool" where
  "joined p x y = (\<exists>r. root_of p x r \<and> root_of p y r)"

text \<open>
  Two ids are in the same region: \<^verbatim>\<open>find\<close> returns the same representative for both.
\<close>

definition same_set :: "union_find \<Rightarrow> nat \<Rightarrow> nat \<Rightarrow> bool" where
  "same_set u a b =
     (case uf_find u a of
        None \<Rightarrow> False
      | Some (u1, ra) \<Rightarrow>
          (case uf_find u b of None \<Rightarrow> False | Some (u2, rb) \<Rightarrow> ra = rb))"

text \<open>
  The input is well formed: every voxel's fragment and every end point of an edge is one
  of the \<open>n\<close> fragments.
\<close>

definition valid_input :: "nat \<Rightarrow> nat list \<Rightarrow> 'st rag_edge list \<Rightarrow> bool" where
  "valid_input n fragments edges =
     ((\<forall>f \<in> set fragments. f < n) \<and> (\<forall>e \<in> set edges. edge_u e < n \<and> edge_v e < n))"

text \<open>
  The invariant of the Agglomerator's state.
\<close>

definition agg_inv :: "nat \<Rightarrow> 'st agg_state \<Rightarrow> bool" where
  "agg_inv n s =
     (uf_inv (uf s) \<and> length (parent (uf s)) = n
      \<and> (\<forall>e \<in> set (rag s). edge_u e < n \<and> edge_v e < n))"

text \<open>
  Voxels with the same label in the first labelling have the same label in the second.
\<close>

definition refines :: "nat list \<Rightarrow> nat list \<Rightarrow> bool" where
  "refines fine coarse =
     (length fine = length coarse
      \<and> (\<forall>v<length fine. \<forall>w<length fine. fine ! v = fine ! w \<longrightarrow> coarse ! v = coarse ! w))"

text \<open>
  The order in which merging crosses the thresholds of an ascending list.
\<close>

definition crossing :: "merge_direction \<Rightarrow> real list \<Rightarrow> real list" where
  "crossing d ts = (case d of LowestFirst \<Rightarrow> ts | HighestFirst \<Rightarrow> rev ts)"

text \<open>
  The snapshots taken so far: they answer the thresholds crossed so far, in the order of
  crossing; the current regions are unions of each snapshot's regions; and each snapshot
  refines the later ones.
\<close>

definition snap_inv :: "merge_direction \<Rightarrow> real list \<Rightarrow> nat list \<Rightarrow> 'st agg_state \<Rightarrow> bool" where
  "snap_inv d order fragments s =
     (map fst (snapshots s) @ crossing d (thresholds s) = order
      \<and> (\<forall>ls \<in> set (map snd (snapshots s)).
            length ls = length fragments
            \<and> (\<forall>v<length fragments. \<forall>w<length fragments.
                  ls ! v = ls ! w \<longrightarrow> joined (parent (uf s)) (fragments ! v) (fragments ! w)))
      \<and> (\<forall>j<length (snapshots s). \<forall>i<j.
            refines (snd (snapshots s ! i)) (snd (snapshots s ! j))))"



subsection \<open>A concrete run\<close>

text \<open>
  Modelled from the spec: the scoring policy "mean affinity" (section 4.3): an edge keeps the sum
  and the number of its crossing affinities.
\<close>

definition mean_affinity :: "merge_direction \<Rightarrow> size_constraint \<Rightarrow> (real \<times> nat) policy" where
  "mean_affinity d c =
     \<lparr> score_of = (\<lambda>(total, n). total / real n),
       combine = (\<lambda>(t1, n1) (t2, n2). (t1 + t2, n1 + n2)),
       direction = d, constraint = c \<rparr>"

text \<open>
  Four fragments of one voxel each on a 2 by 2 grid, joined pairwise with affinity 0.9
  (0-1 and 2-3) and across with affinity 0.1 (0-2 and 1-3).
\<close>

definition ex_edges :: "(real \<times> nat) rag_edge list" where
  "ex_edges =
     [\<lparr> edge_u = 0, edge_v = 1, edge_stats = (0.9, 1) \<rparr>,
      \<lparr> edge_u = 2, edge_v = 3, edge_stats = (0.9, 1) \<rparr>,
      \<lparr> edge_u = 0, edge_v = 2, edge_stats = (0.1, 1) \<rparr>,
      \<lparr> edge_u = 1, edge_v = 3, edge_stats = (0.1, 1) \<rparr>]"

text \<open>
  Mean affinity, lowest score merged first, no size constraint.
\<close>

definition ex_policy :: "(real \<times> nat) policy" where
  "ex_policy = mean_affinity LowestFirst Unconstrained"


section \<open>Properties of the packaging script\<close>

lemmas path_defs = source_dir_def os_path_join_def Path_def relative_to_def
  is_relative_to_def is_absolute_def str_mul_def

lemmas example_defs = example_env_def opt_prefix_env_def no_prefix_env_def
  outside_home_env_def no_readme_env_def binary_readme_env_def readme_at_def

text \<open>
  Against the path \<^verbatim>\<open>.\<close>, which has no parts, an absolute path is refused; this is
  what happens when \<^verbatim>\<open>HOME\<close> is a single dot.
\<close>

lemma relative_to_dot: "relative_to (Path ''/home/user/src'') (Path ''.'') = Inl ValueError"
  by (simp add: path_defs)

lemma locate_results:
  "locate env h =
     (if \<not> is_relative_to (Path (source_dir env)) (Path h) then Inl ValueError
      else case environ env ''CONDA_PREFIX'' of
             None \<Rightarrow> Inl (KeyError ''CONDA_PREFIX'')
           | Some prefix \<Rightarrow>
               if \<not> is_relative_to (Path prefix) (Path h) then Inl ValueError
               else Inr (extensions (source_dir env)
                      (Path (str_mul (int (length (drop (length (Path h)) (Path (source_dir env)))) - 1)
                               ''../'')
                       @ drop (length (Path h)) (Path prefix))))"
  by (simp add: locate_def relative_to_def Let_def split: option.splits)

lemma setup_script_reaches:
  "setup_script env = Inr args \<Longrightarrow>
     \<exists>readme h exts. import_error env = None \<and> read_long_description env = Inr readme
        \<and> home env = Inr h \<and> locate env h = Inr exts \<and> args = setup_call env readme exts"
  by (auto simp: setup_script_def split: option.splits sum.splits)

lemma setup_script_past_readme:
  "import_error env = None \<Longrightarrow> read_long_description env = Inr readme \<Longrightarrow>
     home env = Inr h \<Longrightarrow>
     setup_script env = (case locate env h of Inl e \<Rightarrow> Inl e
                         | Inr exts \<Rightarrow> Inr (setup_call env readme exts))"
  by (simp add: setup_script_def)

text \<open>
  C8, as amended. The script reaches \<^verbatim>\<open>setup()\<close> only if \<^verbatim>\<open>CONDA_PREFIX\<close> is set and both
  the source directory and the prefix lie under the home directory. The checks run in
  the order of the statements. Provided the statements before them complete (the imports
  succeed, \<^verbatim>\<open>README.md\<close> is opened and read) and \<^verbatim>\<open>Path.home()\<close> returns a directory: a source
  directory outside the home directory ends the script with \<open>ValueError\<close> whether or not
  \<^verbatim>\<open>CONDA_PREFIX\<close> is set; with the source directory under the home directory, a missing
  \<^verbatim>\<open>CONDA_PREFIX\<close> ends it with \<open>KeyError\<close>, and a prefix outside the home directory with
  \<open>ValueError\<close>. In each of these cases the result is an exception, so \<^verbatim>\<open>setup()\<close> is not
  called.
\<close>

theorem setup_script_preconditions:
  "(setup_script env = Inr args \<longrightarrow>
      (\<exists>prefix h. environ env ''CONDA_PREFIX'' = Some prefix \<and> home env = Inr h
          \<and> is_relative_to (Path prefix) (Path h)
          \<and> is_relative_to (Path (source_dir env)) (Path h)))
   \<and> (import_error env = None \<longrightarrow> read_long_description env = Inr readme \<longrightarrow>
        home env = Inr h \<longrightarrow>
        \<not> is_relative_to (Path (source_dir env)) (Path h) \<longrightarrow>
        setup_script env = Inl ValueError)
   \<and> (import_error env = None \<longrightarrow> read_long_description env = Inr readme \<longrightarrow>
        home env = Inr h \<longrightarrow>
        is_relative_to (Path (source_dir env)) (Path h) \<longrightarrow>
        environ env ''CONDA_PREFIX'' = None \<longrightarrow>
        setup_script env = Inl (KeyError ''CONDA_PREFIX''))
   \<and> (import_error env = None \<longrightarrow> read_long_description env = Inr readme \<longrightarrow>
        home env = Inr h \<longrightarrow>
        is_relative_to (Path (source_dir env)) (Path h) \<longrightarrow>
        environ env ''CONDA_PREFIX'' = Some prefix \<longrightarrow>
        \<not> is_relative_to (Path prefix) (Path h) \<longrightarrow>
        setup_script env = Inl ValueError)"
proof (intro conjI impI)
  assume "setup_script env = Inr args"
  then obtain readme h exts where h: "home env = Inr h" and ok: "locate env h = Inr exts"
    using setup_script_reaches by blast
  from ok have "is_relative_to (Path (source_dir env)) (Path h)"
    and "\<exists>prefix. environ env ''CONDA_PREFIX'' = Some prefix
           \<and> is_relative_to (Path prefix) (Path h)"
    by (auto simp: locate_results split: if_splits option.splits)
  with h show "\<exists>prefix h. environ env ''CONDA_PREFIX'' = Some prefix \<and> home env = Inr h
          \<and> is_relative_to (Path prefix) (Path h)
          \<and> is_relative_to (Path (source_dir env)) (Path h)"
    by blast
next
  assume "import_error env = None" "read_long_description env = Inr readme" "home env = Inr h"
    and "\<not> is_relative_to (Path (source_dir env)) (Path h)"
  then show "setup_script env = Inl ValueError"
    by (simp add: setup_script_past_readme locate_results)
next
  assume "import_error env = None" "read_long_description env = Inr readme" "home env = Inr h"
    and "is_relative_to (Path (source_dir env)) (Path h)"
    and "environ env ''CONDA_PREFIX'' = None"
  then show "setup_script env = Inl (KeyError ''CONDA_PREFIX'')"
    by (simp add: setup_script_past_readme locate_results)
next
  assume "import_error env = None" "read_long_description env = Inr readme" "home env = Inr h"
    and "is_relative_to (Path (source_dir env)) (Path h)"
    and "environ env ''CONDA_PREFIX'' = Some prefix"
    and "\<not> is_relative_to (Path prefix) (Path h)"
  then show "setup_script env = Inl ValueError"
    by (simp add: setup_script_past_readme locate_results)
qed

lemma example_run:
  "setup_script example_env =
     Inr (setup_call example_env ''# waterz''
            (extensions ''/home/user/src/waterz/waterz''
               [''..'', ''..'', ''miniconda3'', ''envs'', ''waterz'']))"
  by (simp add: setup_script_def read_long_description_def locate_def example_defs path_defs
      eval_nat_numeral)

theorem setup_script_preconditions_witness:
  "(\<exists>args. setup_script example_env = Inr args)
   \<and> environ example_env ''CONDA_PREFIX'' = Some ''/home/user/miniconda3/envs/waterz''
   \<and> home example_env = Inr ''/home/user''
   \<and> is_relative_to (Path ''/home/user/miniconda3/envs/waterz'') (Path ''/home/user'')
   \<and> is_relative_to (Path (source_dir example_env)) (Path ''/home/user'')
   \<and> setup_script outside_home_env = Inl ValueError
   \<and> setup_script no_prefix_env = Inl (KeyError ''CONDA_PREFIX'')
   \<and> setup_script opt_prefix_env = Inl ValueError"
proof -
  let ?h = "''/home/user''"
  have prefix: "environ example_env ''CONDA_PREFIX'' = Some ''/home/user/miniconda3/envs/waterz''"
    and home: "home example_env = Inr ?h"
    by (simp_all add: example_defs)
  have inside: "is_relative_to (Path (source_dir example_env)) (Path ?h)"
    by (simp add: example_defs path_defs)
  have 1: "\<exists>args. setup_script example_env = Inr args"
    using example_run by blast
  have 2: "is_relative_to (Path ''/home/user/miniconda3/envs/waterz'') (Path ?h)"
    using setup_script_preconditions [of example_env _ "''# waterz''" ?h "''/opt/conda''"]
      example_run prefix home
    by fastforce
  have 3: "setup_script outside_home_env = Inl ValueError"
  proof -
    have "import_error outside_home_env = None"
      and "read_long_description outside_home_env = Inr ''# waterz''"
      and "home outside_home_env = Inr ?h"
      and "\<not> is_relative_to (Path (source_dir outside_home_env)) (Path ?h)"
      by (simp_all add: read_long_description_def example_defs path_defs)
    with setup_script_preconditions
      [of outside_home_env undefined "''# waterz''" ?h "''/opt/conda''"]
    show ?thesis by blast
  qed
  have 4: "setup_script no_prefix_env = Inl (KeyError ''CONDA_PREFIX'')"
  proof -
    have "import_error no_prefix_env = None"
      and "read_long_description no_prefix_env = Inr ''# waterz''"
      and "home no_prefix_env = Inr ?h"
      and "is_relative_to (Path (source_dir no_prefix_env)) (Path ?h)"
      and "environ no_prefix_env ''CONDA_PREFIX'' = None"
      by (simp_all add: read_long_description_def example_defs path_defs)
    with setup_script_preconditions
      [of no_prefix_env undefined "''# waterz''" ?h "''/opt/conda''"]
    show ?thesis by blast
  qed
  have 5: "setup_script opt_prefix_env = Inl ValueError"
  proof -
    have "import_error opt_prefix_env = None"
      and "read_long_description opt_prefix_env = Inr ''# waterz''"
      and "home opt_prefix_env = Inr ?h"
      and "is_relative_to (Path (source_dir opt_prefix_env)) (Path ?h)"
      and "environ opt_prefix_env ''CONDA_PREFIX'' = Some ''/opt/conda''"
      and "\<not> is_relative_to (Path ''/opt/conda'') (Path ?h)"
      by (simp_all add: read_long_description_def example_defs path_defs)
    with setup_script_preconditions
      [of opt_prefix_env undefined "''# waterz''" ?h "''/opt/conda''"]
    show ?thesis by blast
  qed
  from 1 prefix home 2 inside 3 4 5 show ?thesis
    by blast
qed

text \<open>
  C8 as it is written says that a missing \<^verbatim>\<open>CONDA_PREFIX\<close> always gives \<open>KeyError\<close>. For a
  checkout outside the home directory the earlier \<^verbatim>\<open>relative_to\<close> of the source directory
  raises first: the variable is missing and the exception is \<open>ValueError\<close>. For a checkout
  whose \<^verbatim>\<open>README.md\<close> is missing, or opens but is not text, the statements at the top of the
  script raise before either: \<open>FileNotFoundError\<close> from \<^verbatim>\<open>open\<close>, \<open>UnicodeDecodeError\<close> from
  \<^verbatim>\<open>read\<close>.
\<close>

theorem setup_script_failure_counterexample:
  "environ outside_home_env ''CONDA_PREFIX'' = None
   \<and> setup_script outside_home_env = Inl ValueError
   \<and> setup_script outside_home_env \<noteq> Inl (KeyError ''CONDA_PREFIX'')
   \<and> environ no_readme_env ''CONDA_PREFIX'' = None
   \<and> setup_script no_readme_env = Inl FileNotFoundError
   \<and> environ binary_readme_env ''CONDA_PREFIX'' = None
   \<and> setup_script binary_readme_env = Inl UnicodeDecodeError"
  by (simp add: setup_script_def read_long_description_def locate_def example_defs path_defs)

text \<open>
  C9. Whenever the script reaches \<^verbatim>\<open>setup()\<close>, it passes exactly one extension module: it
  is named \<^verbatim>\<open>waterz.evaluate\<close>, is built from \<^verbatim>\<open>waterz/evaluate.cpp\<close> and
  \<^verbatim>\<open>waterz/frontend_evaluate.cpp\<close> as C++, has \<^verbatim>\<open>-std=c++11\<close> among both its compile and its
  link arguments, and its include directories contain the source directory and its
  \<^verbatim>\<open>backend\<close> subdirectory.
\<close>

theorem setup_script_extensions:
  assumes "setup_script env = Inr args"
  shows "\<exists>e. ext_modules args = [e]
           \<and> ext_name e = ''waterz.evaluate''
           \<and> ext_sources e = [''waterz/evaluate.cpp'', ''waterz/frontend_evaluate.cpp'']
           \<and> ext_language e = ''c++''
           \<and> ''-std=c++11'' \<in> set (ext_extra_compile_args e)
           \<and> ''-std=c++11'' \<in> set (ext_extra_link_args e)
           \<and> source_dir env \<in> set (ext_include_dirs e)
           \<and> os_path_join (source_dir env) ''backend'' \<in> set (ext_include_dirs e)"
proof -
  from assms obtain readme h exts where
    ok: "locate env h = Inr exts" and args: "args = setup_call env readme exts"
    using setup_script_reaches by blast
  from ok obtain conda_prefix where "exts = extensions (source_dir env) conda_prefix"
    by (auto simp: locate_results split: if_splits option.splits)
  with args show ?thesis
    by (simp add: setup_call_def extensions_def include_dirs_def)
qed

theorem setup_script_extensions_witness:
  "\<exists>args e. setup_script example_env = Inr args
      \<and> ext_modules args = [e]
      \<and> ext_name e = ''waterz.evaluate''
      \<and> ext_sources e = [''waterz/evaluate.cpp'', ''waterz/frontend_evaluate.cpp'']
      \<and> ext_language e = ''c++''
      \<and> ''-std=c++11'' \<in> set (ext_extra_compile_args e)
      \<and> ''-std=c++11'' \<in> set (ext_extra_link_args e)
      \<and> ext_include_dirs e =
          [''/home/user/src/waterz/waterz'', ''/home/user/src/waterz/waterz/backend'']"
proof -
  from setup_script_extensions [OF example_run] show ?thesis
    by (auto simp: example_run setup_call_def extensions_def include_dirs_def os_path_join_def)
qed

text \<open>
  C10, as amended. When \<^verbatim>\<open>build_ext.finalize_options\<close> returns, the inherited method has
  returned some state \<open>w1\<close> and numpy was importable; the builder's include directories are
  those the inherited method left in \<open>w1\<close>, followed by the one entry
  \<^verbatim>\<open>numpy.get_include()\<close>; they are the value before the call followed by that entry
  whenever the inherited method leaves the list as it was. \<^verbatim>\<open>builtins.__NUMPY_SETUP__\<close> is
  \<open>False\<close>, every other attribute of the builder is as in \<open>w1\<close>, and so is every other
  attribute of \<^verbatim>\<open>builtins\<close>.
\<close>

theorem finalize_options_effect:
  assumes "finalize_options base_finalize_options numpy w = Inr w'"
  shows "\<exists>w1 get_include.
           base_finalize_options w = Inr w1 \<and> numpy = Some get_include
         \<and> bld_include_dirs (self w') = bld_include_dirs (self w1) @ [get_include]
         \<and> builtins w' ''__NUMPY_SETUP__'' = Some False
         \<and> builder.more (self w') = builder.more (self w1)
         \<and> (\<forall>k. builtins w' k = (if k = ''__NUMPY_SETUP__'' then Some False else builtins w1 k))
         \<and> (bld_include_dirs (self w1) = bld_include_dirs (self w) \<longrightarrow>
              bld_include_dirs (self w') = bld_include_dirs (self w) @ [get_include])"
  using assms
  by (auto simp: finalize_options_def Let_def split: sum.splits option.splits)

theorem finalize_options_effect_witness:
  "(\<exists>w'. finalize_options example_base (Some ''/site-packages/numpy/core/include'') example_world
          = Inr w'
      \<and> bld_include_dirs (self w') =
          [''waterz'', ''/usr/include/python3.8'', ''/site-packages/numpy/core/include'']
      \<and> builtins w' ''__NUMPY_SETUP__'' = Some False)
   \<and> (\<exists>w'. finalize_options idle_base (Some ''/site-packages/numpy/core/include'') example_world
          = Inr w'
      \<and> bld_include_dirs (self w') =
          bld_include_dirs (self example_world) @ [''/site-packages/numpy/core/include'']
      \<and> builtins w' ''__NUMPY_SETUP__'' = Some False)"
proof -
  let ?np = "''/site-packages/numpy/core/include''"
  have run: "finalize_options example_base (Some ?np) example_world
      = Inr \<lparr> self = \<lparr> bld_include_dirs = [''waterz'', ''/usr/include/python3.8'', ?np] \<rparr>,
              builtins = [''__NUMPY_SETUP__'' \<mapsto> False] \<rparr>"
    by (simp add: finalize_options_def example_base_def example_world_def)
  have idle: "finalize_options idle_base (Some ?np) example_world
      = Inr \<lparr> self = \<lparr> bld_include_dirs = [''waterz'', ?np] \<rparr>,
              builtins = [''__NUMPY_SETUP__'' \<mapsto> False] \<rparr>"
    by (simp add: finalize_options_def idle_base_def example_world_def)
  from finalize_options_effect [OF run] have 1:
    "\<exists>w'. finalize_options example_base (Some ?np) example_world = Inr w'
      \<and> bld_include_dirs (self w') = [''waterz'', ''/usr/include/python3.8'', ?np]
      \<and> builtins w' ''__NUMPY_SETUP__'' = Some False"
    by (simp add: run)
  from finalize_options_effect [OF idle] have 2:
    "\<exists>w'. finalize_options idle_base (Some ?np) example_world = Inr w'
      \<and> bld_include_dirs (self w') = bld_include_dirs (self example_world) @ [?np]
      \<and> builtins w' ''__NUMPY_SETUP__'' = Some False"
    by (simp add: idle idle_base_def)
  from 1 2 show ?thesis by blast
qed

text \<open>
  C10 as it is written says that the include directories end as their value before the
  call plus one entry. An inherited \<^verbatim>\<open>finalize_options\<close> that itself adds a directory, as
  the one of setuptools adds the interpreter's, makes them the previous value plus two.
\<close>

theorem finalize_options_previous_value_counterexample:
  "bld_include_dirs (self example_world) = [''waterz'']
   \<and> finalize_options example_base (Some ''/site-packages/numpy/core/include'') example_world
       = Inr \<lparr> self = \<lparr> bld_include_dirs =
                 [''waterz'', ''/usr/include/python3.8'', ''/site-packages/numpy/core/include''] \<rparr>,
               builtins = [''__NUMPY_SETUP__'' \<mapsto> False] \<rparr>
   \<and> [''waterz'', ''/usr/include/python3.8'', ''/site-packages/numpy/core/include'']
       \<noteq> bld_include_dirs (self example_world) @ [''/site-packages/numpy/core/include'']"
  by (simp add: finalize_options_def example_base_def example_world_def)

section \<open>Properties of the engine model\<close>

subsection \<open>Union-Find: representatives, path compression, linking\<close>

lemma root_of_det: "root_of p x r \<Longrightarrow> root_of p x r' \<Longrightarrow> r = r'"
proof (induction arbitrary: r' rule: root_of.induct)
  case (root x)
  from root.prems root.hyps show ?case by (cases rule: root_of.cases) auto
next
  case (step x r)
  from step.prems step.hyps(1,2) have "root_of p (p ! x) r'"
    by (cases rule: root_of.cases) auto
  then show ?case by (rule step.IH)
qed

lemma root_of_is_root: "root_of p x r \<Longrightarrow> r < length p \<and> p ! r = r \<and> x < length p"
  by (induction rule: root_of.induct) auto

lemma root_of_rank:
  "root_of p x r \<Longrightarrow> forest p rk \<Longrightarrow> x \<noteq> r \<Longrightarrow> rk ! x < rk ! r"
proof (induction rule: root_of.induct)
  case (root x)
  then show ?case by simp
next
  case (step x r)
  have lt: "rk ! x < rk ! (p ! x)"
    using step.hyps(1,2) step.prems(1) by (simp add: forest_def)
  show ?case
  proof (cases "p ! x = r")
    case True
    with lt show ?thesis by simp
  next
    case False
    with step.IH step.prems(1) have "rk ! (p ! x) < rk ! r" by simp
    with lt show ?thesis by simp
  qed
qed

lemma root_of_total:
  assumes "forest p rk"
  shows "x < length p \<Longrightarrow> \<exists>r. root_of p x r"
proof (induction "sum_list rk - rk ! x" arbitrary: x rule: less_induct)
  case less
  show ?case
  proof (cases "p ! x = x")
    case True
    with less.prems show ?thesis by (auto intro: root_of.root)
  next
    case False
    from assms less.prems False
    have px: "p ! x < length p" and lt: "rk ! x < rk ! (p ! x)" and len: "length rk = length p"
      by (auto simp: forest_def)
    have "rk ! (p ! x) \<le> sum_list rk"
      using px len by (simp add: member_le_sum_list)
    with lt have "sum_list rk - rk ! (p ! x) < sum_list rk - rk ! x" by simp
    from less.hyps [OF this px] obtain r where "root_of p (p ! x) r" ..
    with less.prems False show ?thesis by (auto intro: root_of.step)
  qed
qed

lemma root_of_compress:
  assumes xr: "root_of p x r"
  shows "root_of p z s \<Longrightarrow> root_of (p[x := r]) z s"
proof (induction rule: root_of.induct)
  case (root z)
  show ?case
  proof (cases "z = x")
    case True
    with root xr have "r = z" by (auto intro: root_of_det root_of.root)
    with root True show ?thesis by (auto intro: root_of.root)
  next
    case False
    with root show ?thesis by (auto intro: root_of.root)
  qed
next
  case (step z s)
  show ?case
  proof (cases "z = x")
    case False
    with step show ?thesis by (auto intro: root_of.step)
  next
    case True
    from step.hyps True have zs: "root_of p x s" by (auto intro: root_of.step)
    from xr zs have rs: "r = s" by (rule root_of_det)
    from root_of_is_root [OF zs] have s: "s < length p" "p ! s = s" by auto
    with step.hyps True have "s \<noteq> x" by auto
    with s have "root_of (p[x := s]) s s" by (auto intro: root_of.root)
    with step.hyps True \<open>s \<noteq> x\<close> rs show ?thesis by (auto intro: root_of.step)
  qed
qed

lemma forest_compress:
  assumes f: "forest p rk" and xr: "root_of p x r"
  shows "forest (p[x := r]) rk"
proof -
  from root_of_is_root [OF xr] have r: "r < length p" "x < length p" by auto
  have "rk ! x < rk ! r" if "r \<noteq> x"
    using root_of_rank [OF xr f] that by auto
  with f r show ?thesis
    by (auto simp: forest_def nth_list_update)
qed

lemma find_root_keeps:
  assumes f: "forest p rk"
  shows "x < length p \<Longrightarrow>
    \<exists>p' r. find_root p x = Some (p', r) \<and> root_of p x r \<and> length p' = length p
       \<and> forest p' rk \<and> (\<forall>z s. root_of p z s \<longrightarrow> root_of p' z s)"
proof (induction "sum_list rk - rk ! x" arbitrary: x rule: less_induct)
  case less
  show ?case
  proof (cases "p ! x = x")
    case True
    with less.prems f show ?thesis
      by (subst find_root.simps) (auto intro: root_of.root)
  next
    case False
    from f less.prems False
    have px: "p ! x < length p" and lt: "rk ! x < rk ! (p ! x)" and len: "length rk = length p"
      by (auto simp: forest_def)
    have "rk ! (p ! x) \<le> sum_list rk"
      using px len by (simp add: member_le_sum_list)
    with lt have "sum_list rk - rk ! (p ! x) < sum_list rk - rk ! x" by simp
    from less.hyps [OF this px] obtain p' r where
      rec: "find_root p (p ! x) = Some (p', r)" and r: "root_of p (p ! x) r"
      and l: "length p' = length p" and f': "forest p' rk"
      and keep: "\<forall>z s. root_of p z s \<longrightarrow> root_of p' z s"
      by blast
    from r less.prems False have xr: "root_of p x r" by (auto intro: root_of.step)
    with keep have xr': "root_of p' x r" by blast
    have eq: "find_root p x = Some (p'[x := r], r)"
      using less.prems False rec by (subst find_root.simps) simp
    have "forest (p'[x := r]) rk" using f' xr' by (rule forest_compress)
    moreover have "\<forall>z s. root_of p z s \<longrightarrow> root_of (p'[x := r]) z s"
      using keep root_of_compress [OF xr'] by blast
    ultimately show ?thesis using eq xr l by simp
  qed
qed

lemma root_of_link:
  assumes a: "a < length p" "p ! a = a" and b: "b < length p" "p ! b = b" and ab: "a \<noteq> b"
  shows "root_of p z r \<Longrightarrow> root_of (p[a := b]) z (if r = a then b else r)"
proof (induction rule: root_of.induct)
  case (root z)
  have bb: "root_of (p[a := b]) b b"
    using b ab by (auto intro: root_of.root)
  show ?case
  proof (cases "z = a")
    case True
    with a ab bb show ?thesis by (auto intro: root_of.step)
  next
    case False
    with root show ?thesis by (auto intro: root_of.root)
  qed
next
  case (step z r)
  from step.hyps a have "z \<noteq> a" by auto
  with step show ?case by (auto intro: root_of.step)
qed

lemma find_root_correct:
  assumes f: "forest p rk" and x: "x < length p"
  shows "\<exists>p' r. find_root p x = Some (p', r) \<and> root_of p x r \<and> length p' = length p
       \<and> forest p' rk \<and> (\<forall>z s. root_of p' z s = root_of p z s)"
proof -
  from find_root_keeps [OF f x] obtain p' r where
    eq: "find_root p x = Some (p', r)" and r: "root_of p x r"
    and l: "length p' = length p" and f': "forest p' rk"
    and keep: "\<forall>z s. root_of p z s \<longrightarrow> root_of p' z s"
    by blast
  have "root_of p z s" if zs: "root_of p' z s" for z s
  proof -
    from root_of_is_root [OF zs] l have "z < length p" by simp
    from root_of_total [OF f this] obtain s' where s': "root_of p z s'" ..
    with keep have "root_of p' z s'" by blast
    with zs have "s = s'" by (rule root_of_det)
    with s' show ?thesis by simp
  qed
  with keep have "\<forall>z s. root_of p' z s = root_of p z s" by blast
  with eq r l f' show ?thesis by blast
qed

lemma uf_find_correct:
  assumes inv: "uf_inv u" and x: "x < length (parent u)"
  shows "\<exists>u' r. uf_find u x = Some (u', r) \<and> root_of (parent u) x r \<and> uf_inv u'
       \<and> length (parent u') = length (parent u) \<and> rank u' = rank u \<and> size_of u' = size_of u
       \<and> (\<forall>z s. root_of (parent u') z s = root_of (parent u) z s)"
proof -
  from inv have f: "forest (parent u) (rank u)" by (simp add: uf_inv_def)
  from find_root_correct [OF f x] obtain p' r where
    eq: "find_root (parent u) x = Some (p', r)" and r: "root_of (parent u) x r"
    and l: "length p' = length (parent u)" and f': "forest p' (rank u)"
    and same: "\<forall>z s. root_of p' z s = root_of (parent u) z s"
    by blast
  have "uf_find u x = Some (u\<lparr>parent := p'\<rparr>, r)"
    using eq by (simp add: uf_find_def)
  moreover have "uf_inv (u\<lparr>parent := p'\<rparr>)"
    using inv f' l by (simp add: uf_inv_def)
  ultimately show ?thesis using r l same by simp
qed

lemma forest_link:
  assumes f: "forest p rk"
    and a: "a < length p" "p ! a = a" and b: "b < length p" "p ! b = b"
    and len: "length rk' = length rk"
    and ge: "\<forall>i<length p. rk ! i \<le> rk' ! i"
    and same: "\<forall>i<length p. i \<noteq> b \<longrightarrow> rk' ! i = rk ! i"
    and lt: "rk' ! a < rk' ! b"
  shows "forest (p[a := b]) rk'"
  unfolding forest_def
proof (intro conjI allI impI)
  show "length rk' = length (p[a := b])" using f len by (simp add: forest_def)
next
  fix i assume "i < length (p[a := b])"
  then have i: "i < length p" by simp
  then show "p[a := b] ! i < length (p[a := b])"
    using f a b by (auto simp: forest_def nth_list_update)
next
  fix i assume "i < length (p[a := b])" and ne: "p[a := b] ! i \<noteq> i"
  then have i: "i < length p" by simp
  show "rk' ! i < rk' ! (p[a := b] ! i)"
  proof (cases "i = a")
    case True
    with a lt show ?thesis by simp
  next
    case False
    with ne i have pi: "p ! i \<noteq> i" "p[a := b] ! i = p ! i" by auto
    with f i have 1: "rk ! i < rk ! (p ! i)" and 2: "p ! i < length p"
      by (auto simp: forest_def)
    from pi b have "i \<noteq> b" by auto
    with same i have "rk' ! i = rk ! i" by simp
    moreover from ge 2 have "rk ! (p ! i) \<le> rk' ! (p ! i)" by simp
    ultimately show ?thesis using 1 pi by simp
  qed
qed

lemma joined_link:
  assumes a: "a < length p" "p ! a = a" and b: "b < length p" "p ! b = b" and ab: "a \<noteq> b"
    and j: "joined p c d"
  shows "joined (p[a := b]) c d"
proof -
  from j obtain r where "root_of p c r" "root_of p d r" by (auto simp: joined_def)
  then have "root_of (p[a := b]) c (if r = a then b else r)"
    and "root_of (p[a := b]) d (if r = a then b else r)"
    using root_of_link [OF a b ab] by blast+
  then show ?thesis unfolding joined_def by blast
qed

lemma joined_link_roots:
  assumes ab: "a \<noteq> b" and x: "root_of p x a" and y: "root_of p y b"
  shows "joined (p[a := b]) x y \<and> root_of (p[a := b]) x b \<and> root_of (p[a := b]) y b"
proof -
  from root_of_is_root [OF x] have a: "a < length p" "p ! a = a" by auto
  from root_of_is_root [OF y] have b: "b < length p" "p ! b = b" by auto
  from root_of_link [OF a b ab x] have "root_of (p[a := b]) x b" by simp
  moreover from root_of_link [OF a b ab y] ab have "root_of (p[a := b]) y b" by simp
  ultimately show ?thesis unfolding joined_def by blast
qed

lemma uf_inv_link:
  assumes inv: "uf_inv u"
    and a: "a < length (parent u)" "parent u ! a = a"
    and b: "b < length (parent u)" "parent u ! b = b"
    and len: "length rk' = length (rank u)"
    and ge: "\<forall>i<length (parent u). rank u ! i \<le> rk' ! i"
    and same: "\<forall>i<length (parent u). i \<noteq> b \<longrightarrow> rk' ! i = rank u ! i"
    and lt: "rk' ! a < rk' ! b"
  shows "uf_inv ((link u a b)\<lparr>rank := rk'\<rparr>)"
proof -
  from inv have f: "forest (parent u) (rank u)" by (simp add: uf_inv_def)
  from forest_link [OF f a b len ge same lt] inv show ?thesis
    by (simp add: uf_inv_def link_def)
qed

lemma uf_union_correct:
  assumes inv: "uf_inv u" and x: "x < length (parent u)" and y: "y < length (parent u)"
  shows "\<exists>u' r. uf_union u x y = Some (u', r) \<and> uf_inv u'
       \<and> length (parent u') = length (parent u)
       \<and> (\<forall>a b. joined (parent u) a b \<longrightarrow> joined (parent u') a b)
       \<and> joined (parent u') x y \<and> root_of (parent u') x r"
proof -
  from uf_find_correct [OF inv x] obtain u1 rx where
    f1: "uf_find u x = Some (u1, rx)" and inv1: "uf_inv u1"
    and rx: "root_of (parent u) x rx"
    and l1: "length (parent u1) = length (parent u)"
    and s1: "\<forall>z s. root_of (parent u1) z s = root_of (parent u) z s"
    by blast
  from y l1 have y1: "y < length (parent u1)" by simp
  from uf_find_correct [OF inv1 y1] obtain u2 ry where
    f2: "uf_find u1 y = Some (u2, ry)" and inv2: "uf_inv u2"
    and ry1: "root_of (parent u1) y ry"
    and l2: "length (parent u2) = length (parent u1)"
    and s2: "\<forall>z s. root_of (parent u2) z s = root_of (parent u1) z s"
    by blast
  let ?p = "parent u2" and ?rk = "rank u2"
  from s1 s2 have same: "\<forall>z s. root_of ?p z s = root_of (parent u) z s" by simp
  then have jm: "joined (parent u) a b \<Longrightarrow> joined ?p a b" for a b
    by (simp add: joined_def)
  from same rx have xr: "root_of ?p x rx" by simp
  from s2 ry1 have yr: "root_of ?p y ry" by simp
  from root_of_is_root [OF xr] have a: "rx < length ?p" "?p ! rx = rx" by auto
  from root_of_is_root [OF yr] have b: "ry < length ?p" "?p ! ry = ry" by auto
  from l1 l2 have l: "length ?p = length (parent u)" by simp
  from inv2 have lr: "length ?rk = length ?p" by (simp add: uf_inv_def forest_def)
  consider (same) "rx = ry" | (lt) "rx \<noteq> ry" "?rk ! rx < ?rk ! ry"
    | (gt) "rx \<noteq> ry" "?rk ! ry < ?rk ! rx"
    | (eq) "rx \<noteq> ry" "?rk ! rx = ?rk ! ry"
    by linarith
  then show ?thesis
  proof cases
    case same
    then have "uf_union u x y = Some (u2, rx)"
      using f1 f2 by (simp add: uf_union_def)
    moreover from same xr yr have "joined ?p x y" by (auto simp: joined_def)
    ultimately show ?thesis using inv2 l jm xr by blast
  next
    case lt
    let ?u = "link u2 rx ry"
    have eq: "uf_union u x y = Some (?u, ry)"
      using f1 f2 lt by (simp add: uf_union_def)
    have "uf_inv (?u\<lparr>rank := ?rk\<rparr>)"
      using inv2 a b _ _ _ lt(2) by (rule uf_inv_link) simp_all
    then have i: "uf_inv ?u" by (simp add: link_def)
    have p: "parent ?u = ?p[rx := ry]" by (simp add: link_def)
    from joined_link_roots [OF lt(1) xr yr]
    have "joined (parent ?u) x y" "root_of (parent ?u) x ry" by (simp_all add: p)
    moreover have "joined (parent u) c d \<Longrightarrow> joined (parent ?u) c d" for c d
      using joined_link [OF a b lt(1) jm] by (simp add: p)
    moreover have "length (parent ?u) = length (parent u)" using l by (simp add: p)
    ultimately show ?thesis using eq i by blast
  next
    case gt
    let ?u = "link u2 ry rx"
    have eq: "uf_union u x y = Some (?u, rx)"
      using f1 f2 gt by (simp add: uf_union_def)
    have "uf_inv (?u\<lparr>rank := ?rk\<rparr>)"
      using inv2 b a _ _ _ gt(2) by (rule uf_inv_link) simp_all
    then have i: "uf_inv ?u" by (simp add: link_def)
    have p: "parent ?u = ?p[ry := rx]" by (simp add: link_def)
    from gt(1) have ne: "ry \<noteq> rx" by simp
    from joined_link_roots [OF ne yr xr]
    have "joined (parent ?u) y x" "root_of (parent ?u) x rx" by (simp_all add: p)
    then have "joined (parent ?u) x y" "root_of (parent ?u) x rx"
      by (auto simp: joined_def)
    moreover have "joined (parent u) c d \<Longrightarrow> joined (parent ?u) c d" for c d
      using joined_link [OF b a ne jm] by (simp add: p)
    moreover have "length (parent ?u) = length (parent u)" using l by (simp add: p)
    ultimately show ?thesis using eq i by blast
  next
    case eq
    let ?rk' = "?rk[rx := Suc (?rk ! rx)]"
    let ?u = "(link u2 ry rx)\<lparr>rank := ?rk'\<rparr>"
    have e: "uf_union u x y = Some (?u, rx)"
      using f1 f2 eq by (simp add: uf_union_def)
    have i: "uf_inv ?u"
    proof (rule uf_inv_link [OF inv2 b a])
      show "length ?rk' = length ?rk" by simp
      show "\<forall>i<length ?p. ?rk ! i \<le> ?rk' ! i"
        using lr a by (auto simp: nth_list_update)
      show "\<forall>i<length ?p. i \<noteq> rx \<longrightarrow> ?rk' ! i = ?rk ! i" by simp
      show "?rk' ! ry < ?rk' ! rx" using eq a lr by simp
    qed
    have p: "parent ?u = ?p[ry := rx]" by (simp add: link_def)
    from eq(1) have ne: "ry \<noteq> rx" by simp
    from joined_link_roots [OF ne yr xr]
    have "joined (parent ?u) y x" "root_of (parent ?u) x rx" by (simp_all add: p)
    then have "joined (parent ?u) x y" "root_of (parent ?u) x rx"
      by (auto simp: joined_def)
    moreover have "joined (parent u) c d \<Longrightarrow> joined (parent ?u) c d" for c d
      using joined_link [OF b a ne jm] by (simp add: p)
    moreover have "length (parent ?u) = length (parent u)" using l by (simp add: p)
    ultimately show ?thesis using e i by blast
  qed
qed

lemma uf_inv_make: "uf_inv (uf_make n)"
  by (simp add: uf_inv_def forest_def uf_make_def)

lemma extremal_mem: "extremal pol es = Some e \<Longrightarrow> e \<in> set es"
  by (induction es arbitrary: e) (auto split: option.splits if_splits)

subsection \<open>The Agglomerator: labelling, merging, snapshots\<close>

lemma find_root_out_of_range: "\<not> x < length p \<Longrightarrow> find_root p x = None"
  by (subst find_root.simps) simp

lemma same_set_joined:
  assumes inv: "uf_inv u"
  shows "same_set u a b = joined (parent u) a b"
proof (cases "a < length (parent u) \<and> b < length (parent u)")
  case True
  from True have la: "a < length (parent u)" and lb: "b < length (parent u)" by simp_all
  from uf_find_correct [OF inv la] obtain u1 ra where
    a: "uf_find u a = Some (u1, ra)" "root_of (parent u) a ra"
    by blast
  from uf_find_correct [OF inv lb] obtain u2 rb where
    b: "uf_find u b = Some (u2, rb)" "root_of (parent u) b rb"
    by blast
  have "joined (parent u) a b = (ra = rb)"
    using a(2) b(2) by (auto simp: joined_def dest: root_of_det)
  with a(1) b(1) show ?thesis by (simp add: same_set_def)
next
  case False
  then have "\<not> joined (parent u) a b"
    by (auto simp: joined_def dest: root_of_is_root)
  moreover from False have "\<not> same_set u a b"
    by (auto simp: same_set_def uf_find_def find_root_out_of_range split: option.splits)
  ultimately show ?thesis by simp
qed

lemma label_voxels_correct:
  assumes "uf_inv u" and "\<forall>f \<in> set fs. f < length (parent u)"
  shows "\<exists>u' ls. label_voxels u fs = Some (u', ls) \<and> uf_inv u'
       \<and> length (parent u') = length (parent u)
       \<and> (\<forall>z s. root_of (parent u') z s = root_of (parent u) z s)
       \<and> list_all2 (root_of (parent u)) fs ls"
  using assms
proof (induction fs arbitrary: u)
  case Nil
  then show ?case by simp
next
  case (Cons f fs)
  from Cons.prems have f: "f < length (parent u)" by simp
  from uf_find_correct [OF Cons.prems(1) f] obtain u1 r where
    1: "uf_find u f = Some (u1, r)" "root_of (parent u) f r" "uf_inv u1"
       "length (parent u1) = length (parent u)"
       "\<forall>z s. root_of (parent u1) z s = root_of (parent u) z s"
    by blast
  from Cons.prems(2) 1(4) have "\<forall>f \<in> set fs. f < length (parent u1)" by simp
  from Cons.IH [OF 1(3) this] obtain u2 ls where
    2: "label_voxels u1 fs = Some (u2, ls)" "uf_inv u2"
       "length (parent u2) = length (parent u1)"
       "\<forall>z s. root_of (parent u2) z s = root_of (parent u1) z s"
       "list_all2 (root_of (parent u1)) fs ls"
    by blast
  from 1(5) have eq: "root_of (parent u1) = root_of (parent u)" by (intro ext) simp
  have "label_voxels u (f # fs) = Some (u2, r # ls)"
    using 1(1) 2(1) by simp
  moreover have "list_all2 (root_of (parent u)) (f # fs) (r # ls)"
    using 1(2) 2(5) eq by simp
  ultimately show ?case using 2(2,3,4) 1(4,5) by auto
qed

lemma coalesce_acc_endpoints:
  assumes "\<forall>e \<in> set acc. edge_u e < n \<and> edge_v e < n"
    and "\<forall>e \<in> set es. edge_u e < n \<and> edge_v e < n"
  shows "\<forall>e \<in> set (foldl (\<lambda>acc e. insert_edge pol e acc) acc es). edge_u e < n \<and> edge_v e < n"
  using assms
proof (induction es arbitrary: acc)
  case Nil
  then show ?case by simp
next
  case (Cons e es)
  have "\<forall>x \<in> set (insert_edge pol e acc). edge_u x < n \<and> edge_v x < n"
    using Cons.prems by (induction acc) auto
  with Cons.IH [of "insert_edge pol e acc"] Cons.prems(2) show ?case by simp
qed

lemma merge_edges_endpoints:
  assumes "\<forall>e \<in> set es. edge_u e < n \<and> edge_v e < n" and "r < n"
  shows "\<forall>e \<in> set (merge_edges pol a b r es). edge_u e < n \<and> edge_v e < n"
proof -
  have "\<forall>e \<in> set (filter (\<lambda>e. edge_u e \<noteq> edge_v e) (map (relabel a b r) es)).
          edge_u e < n \<and> edge_v e < n"
    using assms by (auto simp: relabel_def)
  then show ?thesis
    unfolding merge_edges_def coalesce_def
    by (intro coalesce_acc_endpoints) simp_all
qed

lemma labelling_joined:
  assumes l: "list_all2 (root_of p) fragments ls"
    and v: "v < length fragments" and w: "w < length fragments"
  shows "(ls ! v = ls ! w) = joined p (fragments ! v) (fragments ! w)"
proof -
  from l v have rv: "root_of p (fragments ! v) (ls ! v)" by (rule list_all2_nthD)
  from l w have rw: "root_of p (fragments ! w) (ls ! w)" by (rule list_all2_nthD)
  show ?thesis
  proof
    assume "ls ! v = ls ! w"
    with rv rw show "joined p (fragments ! v) (fragments ! w)"
      by (auto simp: joined_def)
  next
    assume "joined p (fragments ! v) (fragments ! w)"
    then obtain r where "root_of p (fragments ! v) r" "root_of p (fragments ! w) r"
      by (auto simp: joined_def)
    with rv rw show "ls ! v = ls ! w" by (auto dest: root_of_det)
  qed
qed

lemma take_snapshot_correct:
  assumes inv: "agg_inv n s" and fr: "\<forall>f \<in> set fragments. f < n"
  shows "\<exists>s' ls. take_snapshot fragments t ts s = Some s' \<and> agg_inv n s'
       \<and> root_of (parent (uf s')) = root_of (parent (uf s))
       \<and> thresholds s' = ts \<and> snapshots s' = snapshots s @ [(t, ls)]
       \<and> list_all2 (root_of (parent (uf s))) fragments ls"
proof -
  from inv have u: "uf_inv (uf s)" and n: "length (parent (uf s)) = n"
    and e: "\<forall>e \<in> set (rag s). edge_u e < n \<and> edge_v e < n"
    by (simp_all add: agg_inv_def)
  from fr n have "\<forall>f \<in> set fragments. f < length (parent (uf s))" by simp
  from label_voxels_correct [OF u this] obtain u' ls where
    l: "label_voxels (uf s) fragments = Some (u', ls)" "uf_inv u'"
       "length (parent u') = length (parent (uf s))"
       "\<forall>z r. root_of (parent u') z r = root_of (parent (uf s)) z r"
       "list_all2 (root_of (parent (uf s))) fragments ls"
    by blast
  let ?s' = "s\<lparr> uf := u', thresholds := ts, snapshots := snapshots s @ [(t, ls)] \<rparr>"
  have "take_snapshot fragments t ts s = Some ?s'"
    using l(1) by (simp add: take_snapshot_def)
  moreover have "agg_inv n ?s'"
    using l(2,3) n e by (simp add: agg_inv_def)
  moreover have "root_of (parent (uf ?s')) = root_of (parent (uf s))"
    using l(4) by (intro ext) simp
  ultimately show ?thesis using l(5) by force
qed

lemma merge_step_correct:
  assumes inv: "agg_inv n s" and mem: "e \<in> set (rag s)"
  shows "\<exists>s'. merge_step pol e s = Some s' \<and> agg_inv n s'
       \<and> (\<forall>a b. joined (parent (uf s)) a b \<longrightarrow> joined (parent (uf s')) a b)
       \<and> thresholds s' = thresholds s \<and> snapshots s' = snapshots s"
proof -
  from inv have u: "uf_inv (uf s)" and n: "length (parent (uf s)) = n"
    and es: "\<forall>e \<in> set (rag s). edge_u e < n \<and> edge_v e < n"
    by (simp_all add: agg_inv_def)
  let ?rest = "remove1 e (rag s)"
  have rest: "\<forall>e \<in> set ?rest. edge_u e < n \<and> edge_v e < n"
    using es by (auto dest: notin_set_remove1)
  from es mem n have eu: "edge_u e < length (parent (uf s))" by simp
  from uf_find_correct [OF u eu] obtain u1 ra where
    1: "uf_find (uf s) (edge_u e) = Some (u1, ra)" "uf_inv u1"
       "root_of (parent (uf s)) (edge_u e) ra"
       "length (parent u1) = length (parent (uf s))"
       "\<forall>z r. root_of (parent u1) z r = root_of (parent (uf s)) z r"
    by blast
  from es mem n 1(4) have ev: "edge_v e < length (parent u1)" by simp
  from uf_find_correct [OF 1(2) ev] obtain u2 rb where
    2: "uf_find u1 (edge_v e) = Some (u2, rb)" "uf_inv u2"
       "root_of (parent u1) (edge_v e) rb"
       "length (parent u2) = length (parent u1)"
       "\<forall>z r. root_of (parent u2) z r = root_of (parent u1) z r"
    by blast
  from 1(4) 2(4) n have n2: "length (parent u2) = n" by simp
  from 1(5) 2(5) have same: "root_of (parent u2) = root_of (parent (uf s))"
    by (intro ext) simp
  then have j2: "joined (parent u2) = joined (parent (uf s))"
    by (intro ext) (simp add: joined_def)
  show ?thesis
  proof (cases "ra = rb \<or> \<not> permits (constraint pol) (uf_size u2 ra) (uf_size u2 rb)")
    case True
    let ?s' = "s\<lparr> uf := u2, rag := ?rest \<rparr>"
    have "merge_step pol e s = Some ?s'"
      using 1(1) 2(1) True by (simp add: merge_step_def Let_def del: remove1.simps)
    moreover have "agg_inv n ?s'"
      using 2(2) n2 rest by (simp add: agg_inv_def)
    ultimately show ?thesis using j2 by simp
  next
    case False
    from 1(3) same have "root_of (parent u2) (edge_u e) ra" by simp
    then have ra: "ra < length (parent u2)" by (auto dest: root_of_is_root)
    from 2(3) 2(5) have "root_of (parent u2) (edge_v e) rb" by simp
    then have rb: "rb < length (parent u2)" by (auto dest: root_of_is_root)
    from uf_union_correct [OF 2(2) ra rb] obtain u3 r where
      3: "uf_union u2 ra rb = Some (u3, r)" "uf_inv u3"
         "length (parent u3) = length (parent u2)"
         "\<forall>a b. joined (parent u2) a b \<longrightarrow> joined (parent u3) a b"
         "root_of (parent u3) ra r"
      by blast
    from 3(5) 3(3) n2 have r: "r < n" by (auto dest: root_of_is_root)
    let ?s' = "s\<lparr> uf := u3,
                  rag := merge_edges pol ra rb r ?rest,
                  seq := Suc (seq s),
                  history := history s @
                    [\<lparr> region_a = ra, region_b = rb, region_result = r,
                       event_score = score_of pol (edge_stats e),
                       result_size = uf_size u3 r \<rparr>] \<rparr>"
    have "merge_step pol e s = Some ?s'"
      using 1(1) 2(1) 3(1) False by (simp add: merge_step_def Let_def del: remove1.simps)
    moreover have "agg_inv n ?s'"
      using 3(2,3) n2 merge_edges_endpoints [OF rest r] by (simp add: agg_inv_def)
    ultimately show ?thesis using 3(4) j2 by simp
  qed
qed

lemma next_threshold_none: "next_threshold d ts = None \<Longrightarrow> ts = []"
  by (cases d) (simp_all add: next_threshold_def split: if_splits)

lemma next_threshold_crossing:
  assumes "next_threshold d ts = Some (t, rest)"
  shows "crossing d ts = t # crossing d rest"
proof (cases d)
  case LowestFirst
  with assms show ?thesis
    by (auto simp: next_threshold_def crossing_def split: if_splits)
next
  case HighestFirst
  with assms have ne: "ts \<noteq> []" and t: "t = last ts" and rest: "rest = butlast ts"
    by (auto simp: next_threshold_def split: if_splits)
  from ne have "rev ts = rev (butlast ts @ [last ts])" by simp
  then have "rev ts = last ts # rev (butlast ts)" by simp
  with HighestFirst t rest show ?thesis by (simp add: crossing_def)
qed



lemma snap_inv_merge:
  assumes sn: "snap_inv d order fragments s"
    and mono: "\<forall>a b. joined (parent (uf s)) a b \<longrightarrow> joined (parent (uf s')) a b"
    and th: "thresholds s' = thresholds s" and sp: "snapshots s' = snapshots s"
  shows "snap_inv d order fragments s'"
  using sn mono unfolding snap_inv_def th sp by blast

lemma snap_inv_snapshot:
  assumes sn: "snap_inv d order fragments s"
    and same: "root_of (parent (uf s')) = root_of (parent (uf s))"
    and th: "crossing d (thresholds s) = t # crossing d (thresholds s')"
    and sp: "snapshots s' = snapshots s @ [(t, ls)]"
    and lab: "list_all2 (root_of (parent (uf s))) fragments ls"
  shows "snap_inv d order fragments s'"
proof -
  from same have j: "joined (parent (uf s')) = joined (parent (uf s))"
    by (intro ext) (simp add: joined_def)
  from lab have len: "length ls = length fragments" by (simp add: list_all2_lengthD)
  from sn have ts: "map fst (snapshots s) @ crossing d (thresholds s) = order"
    and old: "\<And>l v w. l \<in> set (map snd (snapshots s)) \<Longrightarrow> length l = length fragments"
    and oldj: "\<And>l v w. l \<in> set (map snd (snapshots s)) \<Longrightarrow> v < length fragments \<Longrightarrow>
        w < length fragments \<Longrightarrow> l ! v = l ! w \<Longrightarrow>
        joined (parent (uf s)) (fragments ! v) (fragments ! w)"
    and chain: "\<And>i j. j < length (snapshots s) \<Longrightarrow> i < j \<Longrightarrow>
        refines (snd (snapshots s ! i)) (snd (snapshots s ! j))"
    unfolding snap_inv_def by blast+
  have 1: "map fst (snapshots s') @ crossing d (thresholds s') = order"
    using ts th sp by simp
  have 2: "length l = length fragments
      \<and> (\<forall>v<length fragments. \<forall>w<length fragments.
            l ! v = l ! w \<longrightarrow> joined (parent (uf s')) (fragments ! v) (fragments ! w))"
    if "l \<in> set (map snd (snapshots s'))" for l
  proof (cases "l = ls")
    case True
    with len labelling_joined [OF lab] j show ?thesis by simp
  next
    case False
    with that sp have "l \<in> set (map snd (snapshots s))" by auto
    with old oldj j show ?thesis by simp
  qed
  have 3: "refines (snd (snapshots s' ! i)) (snd (snapshots s' ! k))"
    if k: "k < length (snapshots s')" and i: "i < k" for i k
  proof (cases "k < length (snapshots s)")
    case True
    with i chain [OF True i] sp show ?thesis by (simp add: nth_append)
  next
    case False
    with k sp have k': "k = length (snapshots s)" by simp
    with i have il: "i < length (snapshots s)" by simp
    let ?l = "snd (snapshots s ! i)"
    from il have mem: "?l \<in> set (map snd (snapshots s))" by simp
    have "refines ?l ls"
      unfolding refines_def
    proof (intro conjI allI impI)
      show "length ?l = length ls" using old [OF mem] len by simp
    next
      fix v w assume "v < length ?l" "w < length ?l" "?l ! v = ?l ! w"
      with old [OF mem] oldj [OF mem] have v: "v < length fragments"
        and w: "w < length fragments"
        and "joined (parent (uf s)) (fragments ! v) (fragments ! w)"
        by simp_all
      with labelling_joined [OF lab v w] show "ls ! v = ls ! w" by simp
    qed
    with k' il sp show ?thesis by (simp add: nth_append)
  qed
  from 1 2 3 show ?thesis unfolding snap_inv_def by blast
qed

lemma agg_step_correct:
  assumes inv: "agg_inv n s" and fr: "\<forall>f \<in> set fragments. f < n"
    and sn: "snap_inv (direction pol) order fragments s"
  shows "\<exists>s'. agg_step pol fragments s = Some s' \<and> agg_inv n s'
       \<and> snap_inv (direction pol) order fragments s'
       \<and> (\<forall>a b. joined (parent (uf s)) a b \<longrightarrow> joined (parent (uf s')) a b)"
proof (cases "next_threshold (direction pol) (thresholds s)")
  case None
  with inv sn show ?thesis by (simp add: agg_step_def)
next
  case (Some pending)
  obtain t rest where pending: "pending = (t, rest)" by (cases pending)
  from Some pending have nt: "next_threshold (direction pol) (thresholds s) = Some (t, rest)"
    by simp
  have snapshot: ?thesis if eq: "agg_step pol fragments s = take_snapshot fragments t rest s"
  proof -
    from take_snapshot_correct [OF inv fr, of t rest] obtain s' ls where
      s': "take_snapshot fragments t rest s = Some s'" "agg_inv n s'"
          "root_of (parent (uf s')) = root_of (parent (uf s))"
          "thresholds s' = rest" "snapshots s' = snapshots s @ [(t, ls)]"
          "list_all2 (root_of (parent (uf s))) fragments ls"
      by blast
    from next_threshold_crossing [OF nt] s'(4)
    have th: "crossing (direction pol) (thresholds s)
        = t # crossing (direction pol) (thresholds s')"
      by simp
    have "snap_inv (direction pol) order fragments s'"
      using sn s'(3) th s'(5,6) by (rule snap_inv_snapshot)
    moreover from s'(3) have "joined (parent (uf s')) = joined (parent (uf s))"
      by (intro ext) (simp add: joined_def)
    ultimately show ?thesis using eq s'(1,2) by simp
  qed
  show ?thesis
  proof (cases "extremal pol (rag s)")
    case None
    with nt show ?thesis by (intro snapshot) (simp add: agg_step_def)
  next
    case (Some e)
    show ?thesis
    proof (cases "exceeds (direction pol) (score_of pol (edge_stats e)) t")
      case True
      with nt Some show ?thesis by (intro snapshot) (simp add: agg_step_def)
    next
      case False
      with nt Some have eq: "agg_step pol fragments s = merge_step pol e s"
        by (simp add: agg_step_def)
      from Some have "e \<in> set (rag s)" by (rule extremal_mem)
      from merge_step_correct [OF inv this, of pol] obtain s' where
        s': "merge_step pol e s = Some s'" "agg_inv n s'"
            "\<forall>a b. joined (parent (uf s)) a b \<longrightarrow> joined (parent (uf s')) a b"
            "thresholds s' = thresholds s" "snapshots s' = snapshots s"
        by blast
      have "snap_inv (direction pol) order fragments s'"
        using sn s'(3,4,5) by (rule snap_inv_merge)
      with eq s'(1,2,3) show ?thesis by simp
    qed
  qed
qed

lemma agg_steps_correct:
  assumes fr: "\<forall>f \<in> set fragments. f < n"
  shows "agg_inv n s \<Longrightarrow> snap_inv (direction pol) order fragments s \<Longrightarrow>
     \<exists>s'. agg_steps pol fragments k s = Some s' \<and> agg_inv n s'
       \<and> snap_inv (direction pol) order fragments s'
       \<and> (\<forall>a b. joined (parent (uf s)) a b \<longrightarrow> joined (parent (uf s')) a b)"
proof (induction k arbitrary: s)
  case 0
  then show ?case by simp
next
  case (Suc k)
  from agg_step_correct [OF Suc.prems(1) fr Suc.prems(2)] obtain s1 where
    1: "agg_step pol fragments s = Some s1" "agg_inv n s1"
       "snap_inv (direction pol) order fragments s1"
       "\<forall>a b. joined (parent (uf s)) a b \<longrightarrow> joined (parent (uf s1)) a b"
    by blast
  from Suc.IH [OF 1(2,3)] obtain s' where
    2: "agg_steps pol fragments k s1 = Some s'" "agg_inv n s'"
       "snap_inv (direction pol) order fragments s'"
       "\<forall>a b. joined (parent (uf s1)) a b \<longrightarrow> joined (parent (uf s')) a b"
    by blast
  from 1(1) 2(1) have "agg_steps pol fragments (Suc k) s = Some s'" by simp
  with 1(4) 2(2,3,4) show ?case by blast
qed


lemma initial_state_inv:
  assumes "valid_input (length fragment_sizes) fragments edges"
  shows "agg_inv (length fragment_sizes) (initial_state fragment_sizes edges ts)"
    and "snap_inv d (crossing d (sort ts)) fragments (initial_state fragment_sizes edges ts)"
proof -
  from assms show "agg_inv (length fragment_sizes) (initial_state fragment_sizes edges ts)"
    by (simp add: agg_inv_def initial_state_def valid_input_def seed_def uf_make_def
        uf_inv_def forest_def)
  show "snap_inv d (crossing d (sort ts)) fragments (initial_state fragment_sizes edges ts)"
    by (simp add: snap_inv_def initial_state_def)
qed


subsection \<open>Dense labels and coarsening\<close>








subsection \<open>Runs of the engine\<close>

lemma agg_loop_steps:
  "agg_loop pol fragments s = Some s' \<Longrightarrow> \<exists>k. agg_steps pol fragments k s = Some s'"
proof (induction pol fragments s rule: agg_loop.induct)
  case (1 pol fragments s)
  show ?case
  proof (cases "thresholds s = []")
    case True
    with "1.prems" have "agg_steps pol fragments 0 s = Some s'" by simp
    then show ?thesis ..
  next
    case False
    with "1.prems" obtain s1 where
      s1: "agg_step pol fragments s = Some s1" "agg_loop pol fragments s1 = Some s'"
      by (auto split: option.splits)
    from "1.IH" [OF False s1] obtain k where "agg_steps pol fragments k s1 = Some s'" ..
    with s1(1) have "agg_steps pol fragments (Suc k) s = Some s'" by simp
    then show ?thesis ..
  qed
qed

text \<open>
  C5. Union operations are monotone along a run. From a well-formed input every number
  of transitions of the Agglomerator yields a state, and two fragments that are in the same
  region in a state of the run are in the same region in every later state of the run.
\<close>

theorem union_monotone:
  assumes valid: "valid_input (length fragment_sizes) fragments edges"
  shows "\<exists>s s'.
           agg_steps pol fragments i (initial_state fragment_sizes edges ts) = Some s
         \<and> agg_steps pol fragments k s = Some s'
         \<and> (\<forall>a b. same_set (uf s) a b \<longrightarrow> same_set (uf s') a b)"
proof -
  let ?n = "length fragment_sizes"
  from valid have fr: "\<forall>f \<in> set fragments. f < ?n" by (simp add: valid_input_def)
  let ?s0 = "initial_state fragment_sizes edges ts"
  let ?order = "crossing (direction pol) (sort ts)"
  have inv0: "agg_inv ?n ?s0" by (rule initial_state_inv(1) [OF valid])
  have sn0: "snap_inv (direction pol) ?order fragments ?s0"
    by (rule initial_state_inv(2) [OF valid])
  from agg_steps_correct [OF fr inv0 sn0, where k = i] obtain s where
    s: "agg_steps pol fragments i (initial_state fragment_sizes edges ts) = Some s"
       "agg_inv ?n s" "snap_inv (direction pol) ?order fragments s"
    by blast
  from agg_steps_correct [OF fr s(2,3), where k = k] obtain s' where
    s': "agg_steps pol fragments k s = Some s'" "agg_inv ?n s'"
        "\<forall>a b. joined (parent (uf s)) a b \<longrightarrow> joined (parent (uf s')) a b"
    by blast
  from s(2) s'(2) have "uf_inv (uf s)" "uf_inv (uf s')" by (simp_all add: agg_inv_def)
  with s'(3) have "\<forall>a b. same_set (uf s) a b \<longrightarrow> same_set (uf s') a b"
    by (simp add: same_set_joined)
  with s(1) s'(1) show ?thesis by blast
qed

text \<open>
  On the 2 by 2 example fragments 0 and 2 are merged after two transitions and still are
  three transitions later, when fragment 1 has joined them.
\<close>

theorem union_monotone_witness:
  "valid_input (length [1, 1, 1, 1 :: nat]) [0, 1, 2, 3] ex_edges
   \<and> (\<exists>s s'. agg_steps ex_policy [0, 1, 2, 3] 2
                (initial_state [1, 1, 1, 1] ex_edges [0.05, 0.5, 0.95]) = Some s
         \<and> agg_steps ex_policy [0, 1, 2, 3] 3 s = Some s'
         \<and> same_set (uf s) 0 2 \<and> same_set (uf s') 0 2
         \<and> \<not> same_set (uf s) 0 1 \<and> same_set (uf s') 0 1)"
proof -
  let ?s0 = "initial_state [1, 1, 1, 1] ex_edges [0.05, 0.5, 0.95 :: real]"
  have valid: "valid_input (length [1, 1, 1, 1 :: nat]) [0, 1, 2, 3] ex_edges"
    by (simp add: valid_input_def ex_edges_def)
  from union_monotone [OF valid, of ex_policy 2 "[0.05, 0.5, 0.95]" 3] obtain s s' where
    s: "agg_steps ex_policy [0, 1, 2, 3] 2 ?s0 = Some s"
    and s': "agg_steps ex_policy [0, 1, 2, 3] 3 s = Some s'"
    and mono: "\<forall>a b. same_set (uf s) a b \<longrightarrow> same_set (uf s') a b"
    by blast
  have e2: "same_set (uf (the (agg_steps ex_policy [0, 1, 2, 3] 2 ?s0))) 0 2"
    by code_simp
  have n2: "\<not> same_set (uf (the (agg_steps ex_policy [0, 1, 2, 3] 2 ?s0))) 0 1"
    by code_simp
  have e5: "same_set (uf (the (Option.bind (agg_steps ex_policy [0, 1, 2, 3] 2 ?s0)
      (agg_steps ex_policy [0, 1, 2, 3] 3)))) 0 1"
    by code_simp
  from e2 s have a: "same_set (uf s) 0 2" by simp
  with mono have b: "same_set (uf s') 0 2" by blast
  from n2 s have c: "\<not> same_set (uf s) 0 1" by simp
  from e5 s s' have d: "same_set (uf s') 0 1" by simp
  from valid s s' a b c d show ?thesis by blast
qed




end
